theory Spec2Isabelle
  imports Main "HOL-Library.Sublist"
begin

section \<open>Strings and paths as the pipeline uses them\<close>

text \<open>
  The pipeline of \<^verbatim>\<open>luigi_pipeline.py\<close> manipulates file names with Python's
  \<^verbatim>\<open>str.endswith\<close>, \<^verbatim>\<open>str.replace\<close>, \<^verbatim>\<open>os.path.basename\<close> and
  \<^verbatim>\<open>os.path.join\<close> (POSIX flavour). Strings are character lists.
\<close>

definition endswith :: "string \<Rightarrow> string \<Rightarrow> bool" where
  "endswith s suf = prefix (rev suf) (rev s)"

definition startswith :: "string \<Rightarrow> string \<Rightarrow> bool" where
  "startswith s pre = prefix pre s"

text \<open>
  \<^verbatim>\<open>s.replace(old, new)\<close> for a non-empty \<^verbatim>\<open>old\<close>: every occurrence, scanning from the
  left, occurrences not overlapping.
\<close>

function replace_ne :: "string \<Rightarrow> string \<Rightarrow> string \<Rightarrow> string" where
  "replace_ne old new [] = []"
| "replace_ne old new (c # cs) =
     (if old \<noteq> [] \<and> prefix old (c # cs)
      then new @ replace_ne old new (drop (length old) (c # cs))
      else c # replace_ne old new cs)"
  by pat_completeness auto
termination
  by (relation "measure (\<lambda>(old, new, s). length s)") auto

text \<open>With an empty \<^verbatim>\<open>old\<close> Python puts \<^verbatim>\<open>new\<close> before every character and at the end.\<close>

definition replace :: "string \<Rightarrow> string \<Rightarrow> string \<Rightarrow> string" where
  "replace s old new =
     (if old = [] then new @ concat (map (\<lambda>c. c # new) s) else replace_ne old new s)"

text \<open>\<^verbatim>\<open>os.path.basename(p)\<close>: what follows the last slash.\<close>

definition basename :: "string \<Rightarrow> string" where
  "basename p = rev (takeWhile (\<lambda>c. c \<noteq> CHR ''/'') (rev p))"

text \<open>\<^verbatim>\<open>os.path.join(a, b)\<close> with two arguments.\<close>

definition path_join :: "string \<Rightarrow> string \<Rightarrow> string" where
  "path_join a b =
     (if startswith b ''/'' then b
      else if a = [] \<or> endswith a ''/'' then a @ b
      else a @ ''/'' @ b)"

section \<open>Tasks, their parameters, dependencies and outputs\<close>

text \<open>
  One constructor per task class; the arguments are the class's parameters in the order
  of their declaration (which is the order of the positional constructor arguments).
\<close>

datatype task =
    DownloadDatasetTask string string
  | ExtractDatasetTask string string string
  | ProcessDatasetTask string string string
  | TrimDatasetColumnsTask string string string
  | CleanupTask string "string list"

text \<open>The defaults of the parameters.\<close>

definition default_dataset_name :: string where
  "default_dataset_name = ''GSE68849''"

definition default_download_dir :: string where
  "default_download_dir = ''data_downloads''"

definition default_extract_dir :: string where
  "default_extract_dir = ''data_extracted''"

definition default_processed_dir :: string where
  "default_processed_dir = ''data_processed''"

definition default_trimmed_dir :: string where
  "default_trimmed_dir = ''data_trimmed''"

definition default_cleanup_dirs :: "string list" where
  "default_cleanup_dirs = [''data_downloads'', ''data_extracted'']"

text \<open>
  \<^verbatim>\<open>requires\<close>: each class builds its upstream task inline. A parameter that the call
  leaves out takes its default.
\<close>

fun requires :: "task \<Rightarrow> task list" where
  "requires (DownloadDatasetTask dataset_name download_dir) = []"
| "requires (ExtractDatasetTask dataset_name download_dir extract_dir) =
     [DownloadDatasetTask dataset_name download_dir]"
| "requires (ProcessDatasetTask dataset_name extract_dir processed_dir) =
     [ExtractDatasetTask dataset_name default_download_dir default_extract_dir]"
| "requires (TrimDatasetColumnsTask dataset_name processed_dir trimmed_dir) =
     [ProcessDatasetTask dataset_name default_extract_dir default_processed_dir]"
| "requires (CleanupTask dataset_name cleanup_dirs) =
     [TrimDatasetColumnsTask dataset_name default_processed_dir default_trimmed_dir]"

text \<open>\<^verbatim>\<open>output().path\<close>: the path of the task's \<^verbatim>\<open>LocalTarget\<close>.\<close>

fun output_path :: "task \<Rightarrow> string" where
  "output_path (DownloadDatasetTask dataset_name download_dir) =
     path_join download_dir (dataset_name @ ''_RAW.tar'')"
| "output_path (ExtractDatasetTask dataset_name download_dir extract_dir) = extract_dir"
| "output_path (ProcessDatasetTask dataset_name extract_dir processed_dir) = processed_dir"
| "output_path (TrimDatasetColumnsTask dataset_name processed_dir trimmed_dir) = trimmed_dir"
| "output_path (CleanupTask dataset_name cleanup_dirs) = ''cleanup_status.done''"

fun task_dataset_name :: "task \<Rightarrow> string" where
  "task_dataset_name (DownloadDatasetTask n _) = n"
| "task_dataset_name (ExtractDatasetTask n _ _) = n"
| "task_dataset_name (ProcessDatasetTask n _ _) = n"
| "task_dataset_name (TrimDatasetColumnsTask n _ _) = n"
| "task_dataset_name (CleanupTask n _) = n"

text \<open>The URL that \<^verbatim>\<open>DownloadDatasetTask.run\<close> builds.\<close>

definition download_url :: "string \<Rightarrow> string" where
  "download_url name =
     ''ftp://ftp.ncbi.nlm.nih.gov/geo/series/GSE68nnn/'' @ name @ ''/suppl/'' @ name @ ''_RAW.tar''"

text \<open>
  The output paths computed by \<^verbatim>\<open>ProcessDatasetTask._decompress_file\<close> and
  \<^verbatim>\<open>TrimDatasetColumnsTask._trim_columns\<close>, and the suffix tests of the two
  \<^verbatim>\<open>run\<close> loops.
\<close>

definition decompress_output_path :: "string \<Rightarrow> string \<Rightarrow> string" where
  "decompress_output_path processed_dir file_path =
     path_join processed_dir (replace (basename file_path) ''.gz'' ''_processed.txt'')"

definition trim_output_path :: "string \<Rightarrow> string \<Rightarrow> string" where
  "trim_output_path trimmed_dir file_path =
     path_join trimmed_dir (replace (basename file_path) ''_processed.txt'' ''_trimmed.txt'')"

definition process_selects :: "string \<Rightarrow> bool" where
  "process_selects file = endswith file ''.txt.gz''"

definition trim_selects :: "string \<Rightarrow> bool" where
  "trim_selects file = endswith file ''_processed.txt''"

section \<open>The file system the stages act on\<close>

text \<open>
  The stages touch the file system through \<^verbatim>\<open>os.makedirs\<close>, \<^verbatim>\<open>os.walk\<close>,
  \<^verbatim>\<open>os.path.exists\<close>, \<^verbatim>\<open>shutil.rmtree\<close> and by opening files. The state is the list
  of the entries that exist, each a directory or a file with its content. Paths are
  taken in normal form (no empty, \<^verbatim>\<open>.\<close> or \<^verbatim>\<open>..\<close> component, no trailing slash), so
  that a path names one entry; a path with no slash lies in the working directory,
  which always exists. Permissions and disk space are not part of the state.
\<close>

datatype node = Dir | File string

type_synonym filesystem = "(string \<times> node) list"

datatype error =
    FileNotFoundError
  | FileExistsError
  | NotADirectoryError
  | IsADirectoryError
  | UnfulfilledDependency
  | CollaboratorError string

text \<open>A stage either fails, leaving the state it had reached, or returns the new state.\<close>

type_synonym outcome = "(error \<times> filesystem) + filesystem"

definition and_then :: "outcome \<Rightarrow> (filesystem \<Rightarrow> outcome) \<Rightarrow> outcome" where
  "and_then r f = (case r of Inl e \<Rightarrow> Inl e | Inr fs \<Rightarrow> f fs)"

text \<open>The state an outcome leaves, whether it failed or not.\<close>

fun state_of :: "outcome \<Rightarrow> filesystem" where
  "state_of (Inl (e, fs)) = fs"
| "state_of (Inr fs) = fs"

text \<open>
  The paths on which the literal look-up below is what the operating system does: relative
  paths in normal form, that is, \<^verbatim>\<open>p.split('/')\<close> has no empty component and none that
  is \<^verbatim>\<open>.\<close> or \<^verbatim>\<open>..\<close> (so no leading, trailing or doubled slash). A state is normal
  when all its entries are and no path is listed twice.
\<close>

fun split_path :: "string \<Rightarrow> string list" where
  "split_path [] = [[]]"
| "split_path (c # cs) =
     (if c = CHR ''/'' then [] # split_path cs
      else (case split_path cs of [] \<Rightarrow> [[c]] | x # xs \<Rightarrow> (c # x) # xs))"

definition normal_form :: "string \<Rightarrow> bool" where
  "normal_form p = list_all (\<lambda>c. c \<noteq> [] \<and> c \<noteq> ''.'' \<and> c \<noteq> ''..'') (split_path p)"

definition normal_state :: "filesystem \<Rightarrow> bool" where
  "normal_state fs = (distinct (map fst fs) \<and> list_all (\<lambda>e. normal_form (fst e)) fs)"

text \<open>
  \<^verbatim>\<open>os.path.exists\<close>, on normal-form paths and states.
\<close>

definition path_exists :: "filesystem \<Rightarrow> string \<Rightarrow> bool" where
  "path_exists fs p = (map_of fs p \<noteq> None)"

text \<open>The directory part of a path, and whether \<open>p\<close> lies inside directory \<open>d\<close>.\<close>

definition parent :: "string \<Rightarrow> string" where
  "parent p = rev (tl (dropWhile (\<lambda>c. c \<noteq> CHR ''/'') (rev p)))"

definition under :: "string \<Rightarrow> string \<Rightarrow> bool" where
  "under d p = prefix (d @ ''/'') p"

definition ancestors :: "string \<Rightarrow> string list" where
  "ancestors p = map (\<lambda>i. take i p) (filter (\<lambda>i. p ! i = CHR ''/'') [1..<length p])"

text \<open>
  \<^verbatim>\<open>os.makedirs(d, exist_ok=True)\<close>: the missing ancestors and \<open>d\<close> itself are created;
  an existing directory is accepted, an existing file is an error.
\<close>

fun mkdir_chain :: "filesystem \<Rightarrow> string list \<Rightarrow> outcome" where
  "mkdir_chain fs [] = Inr fs"
| "mkdir_chain fs (d # ds) =
     (case map_of fs d of
        Some (File c) \<Rightarrow> Inl (if ds = [] then FileExistsError else NotADirectoryError, fs)
      | Some Dir \<Rightarrow> mkdir_chain fs ds
      | None \<Rightarrow> mkdir_chain ((d, Dir) # fs) ds)"

definition makedirs :: "filesystem \<Rightarrow> string \<Rightarrow> outcome" where
  "makedirs fs d = (if d = [] then Inl (FileNotFoundError, fs) else mkdir_chain fs (ancestors d @ [d]))"

text \<open>Opening a file for writing and writing \<open>c\<close>: the directory of the file must exist.\<close>

definition write_file :: "filesystem \<Rightarrow> string \<Rightarrow> string \<Rightarrow> outcome" where
  "write_file fs p c =
     (if p = [] then Inl (FileNotFoundError, fs)
      else if map_of fs p = Some Dir then Inl (IsADirectoryError, fs)
      else if parent p = [] \<or> map_of fs (parent p) = Some Dir
        then Inr ((p, File c) # filter (\<lambda>e. fst e \<noteq> p) fs)
      else Inl (if map_of fs (parent p) = None then FileNotFoundError else NotADirectoryError, fs))"

definition read_file :: "filesystem \<Rightarrow> string \<Rightarrow> error + string" where
  "read_file fs p =
     (case map_of fs p of
        None \<Rightarrow> Inl FileNotFoundError
      | Some Dir \<Rightarrow> Inl IsADirectoryError
      | Some (File c) \<Rightarrow> Inr c)"

text \<open>\<^verbatim>\<open>shutil.rmtree(d)\<close>: the directory and all that lies inside it.\<close>

definition rmtree :: "filesystem \<Rightarrow> string \<Rightarrow> outcome" where
  "rmtree fs d =
     (case map_of fs d of
        None \<Rightarrow> Inl (FileNotFoundError, fs)
      | Some (File c) \<Rightarrow> Inl (NotADirectoryError, fs)
      | Some Dir \<Rightarrow> Inr (filter (\<lambda>e. fst e \<noteq> d \<and> \<not> under d (fst e)) fs))"

text \<open>
  \<^verbatim>\<open>os.walk(top)\<close> as the two loops of the stages use it: the pairs \<^verbatim>\<open>(root, file)\<close> of
  every file at any depth below the top directory; nothing when that is not a directory. The walk
  is taken when the loop starts. As \<open>path_exists\<close>, it is what the operating system does
  on normal-form paths and states.
\<close>

fun is_file :: "node \<Rightarrow> bool" where
  "is_file (File c) = True"
| "is_file Dir = False"

definition walk :: "filesystem \<Rightarrow> string \<Rightarrow> (string \<times> string) list" where
  "walk fs topdir =
     (if map_of fs topdir = Some Dir
      then map (\<lambda>e. (parent (fst e), basename (fst e)))
             (filter (\<lambda>e. under topdir (fst e) \<and> is_file (snd e)) fs)
      else [])"

section \<open>Tables and the projection of columns\<close>

text \<open>
  A pandas \<^verbatim>\<open>DataFrame\<close> as the trim stage sees it: the column labels and the rows of
  cells. \<^verbatim>\<open>df.drop(columns=cols, errors='ignore')\<close> removes every column whose label is
  listed and ignores the labels that are absent.
\<close>

record dataframe =
  columns :: "string list"
  rows :: "string list list"

definition keep_cells :: "string list \<Rightarrow> string list \<Rightarrow> string list \<Rightarrow> string list" where
  "keep_cells labels cols r = map snd (filter (\<lambda>cv. fst cv \<notin> set cols) (zip labels r))"

definition drop_columns :: "dataframe \<Rightarrow> string list \<Rightarrow> dataframe" where
  "drop_columns df cols =
     \<lparr>columns = filter (\<lambda>c. c \<notin> set cols) (columns df),
      rows = map (keep_cells (columns df) cols) (rows df)\<rparr>"

text \<open>A table is well formed when every row has one cell for each column.\<close>

definition well_formed :: "dataframe \<Rightarrow> bool" where
  "well_formed df = list_all (\<lambda>r. length r = length (columns df)) (rows df)"

definition columns_to_remove :: "string list" where
  "columns_to_remove = [''Definition'', ''Ontology_Component'', ''Ontology_Process'', ''Ontology_Function'']"

section \<open>The collaborators of the stages\<close>

text \<open>
  What the stages call outside the program: the download of a URL (\<^verbatim>\<open>wget\<close>), the
  members of a tar archive (\<^verbatim>\<open>tarfile\<close>), the text of a gzip file (\<^verbatim>\<open>gzip\<close>), and the
  reading and writing of tab-separated tables (\<^verbatim>\<open>pandas\<close>). Each is a function of the
  bytes it is given and may fail.
\<close>

record collaborators =
  wget_download :: "string \<Rightarrow> error + string"
  tar_members :: "string \<Rightarrow> error + (string \<times> node) list"
  gzip_read :: "string \<Rightarrow> error + string"
  read_csv :: "string \<Rightarrow> error + dataframe"
  to_csv :: "dataframe \<Rightarrow> string"

section \<open>The bodies of the five stages\<close>

text \<open>
  Each \<^verbatim>\<open>run\<close> method, statement by statement. An exception of a statement ends the
  method and leaves what the earlier statements did.
\<close>

definition lift_error :: "filesystem \<Rightarrow> error + 'a \<Rightarrow> ('a \<Rightarrow> outcome) \<Rightarrow> outcome" where
  "lift_error fs r f = (case r of Inl e \<Rightarrow> Inl (e, fs) | Inr x \<Rightarrow> f x)"

text \<open>
  \<^verbatim>\<open>DownloadDatasetTask.run\<close>. The download stores the bytes under the name it is given;
  \<^verbatim>\<open>wget\<close> does so when nothing exists under that name, which is the case when the stage
  is run because its output is missing.
\<close>

definition download_run :: "collaborators \<Rightarrow> string \<Rightarrow> string \<Rightarrow> filesystem \<Rightarrow> outcome" where
  "download_run env name download_dir fs =
     and_then (makedirs fs download_dir) (\<lambda>fs1.
       lift_error fs1 (wget_download env (download_url name)) (\<lambda>bytes.
         write_file fs1 (output_path (DownloadDatasetTask name download_dir)) bytes))"

text \<open>
  \<^verbatim>\<open>ExtractDatasetTask.run\<close>; \<^verbatim>\<open>self.input()\<close> is the output of the required download
  task. \<^verbatim>\<open>extractall\<close> creates each member below the extraction directory.
\<close>

fun extract_member :: "string \<Rightarrow> filesystem \<Rightarrow> string \<times> node \<Rightarrow> outcome" where
  "extract_member dir fs (name, Dir) = makedirs fs (path_join dir name)"
| "extract_member dir fs (name, File c) =
     and_then
       (if parent (path_join dir name) = [] then Inr fs
        else makedirs fs (parent (path_join dir name)))
       (\<lambda>fs1. write_file fs1 (path_join dir name) c)"

fun extractall :: "string \<Rightarrow> filesystem \<Rightarrow> (string \<times> node) list \<Rightarrow> outcome" where
  "extractall dir fs [] = Inr fs"
| "extractall dir fs (m # ms) = and_then (extract_member dir fs m) (\<lambda>fs1. extractall dir fs1 ms)"

definition extract_run ::
  "collaborators \<Rightarrow> string \<Rightarrow> string \<Rightarrow> string \<Rightarrow> filesystem \<Rightarrow> outcome" where
  "extract_run env name download_dir extract_dir fs =
     and_then (makedirs fs extract_dir) (\<lambda>fs1.
       lift_error fs1 (read_file fs1 (output_path (DownloadDatasetTask name download_dir))) (\<lambda>bytes.
         lift_error fs1 (tar_members env bytes) (\<lambda>members.
           extractall extract_dir fs1 members)))"

text \<open>\<^verbatim>\<open>ProcessDatasetTask._decompress_file\<close> and \<^verbatim>\<open>ProcessDatasetTask.run\<close>.\<close>

definition decompress_file :: "collaborators \<Rightarrow> string \<Rightarrow> filesystem \<Rightarrow> string \<Rightarrow> outcome" where
  "decompress_file env processed_dir fs file_path =
     lift_error fs (read_file fs file_path) (\<lambda>bytes.
       lift_error fs (gzip_read env bytes) (\<lambda>content.
         write_file fs (decompress_output_path processed_dir file_path) content))"

fun for_each :: "(filesystem \<Rightarrow> string \<Rightarrow> outcome) \<Rightarrow> filesystem \<Rightarrow> string list \<Rightarrow> outcome" where
  "for_each body fs [] = Inr fs"
| "for_each body fs (x # xs) = and_then (body fs x) (\<lambda>fs1. for_each body fs1 xs)"

definition process_run ::
  "collaborators \<Rightarrow> string \<Rightarrow> string \<Rightarrow> string \<Rightarrow> filesystem \<Rightarrow> outcome" where
  "process_run env name extract_dir processed_dir fs =
     and_then (makedirs fs processed_dir) (\<lambda>fs1.
       for_each (decompress_file env processed_dir) fs1
         (map (\<lambda>rf. path_join (fst rf) (snd rf))
            (filter (\<lambda>rf. process_selects (snd rf)) (walk fs1 extract_dir))))"

text \<open>\<^verbatim>\<open>TrimDatasetColumnsTask._trim_columns\<close> and \<^verbatim>\<open>TrimDatasetColumnsTask.run\<close>.\<close>

definition trim_columns ::
  "collaborators \<Rightarrow> string \<Rightarrow> string list \<Rightarrow> filesystem \<Rightarrow> string \<Rightarrow> outcome" where
  "trim_columns env trimmed_dir cols fs file_path =
     lift_error fs (read_file fs file_path) (\<lambda>bytes.
       lift_error fs (read_csv env bytes) (\<lambda>df.
         write_file fs (trim_output_path trimmed_dir file_path)
           (to_csv env (drop_columns df cols))))"

text \<open>
  The files that the loop of \<^verbatim>\<open>TrimDatasetColumnsTask.run\<close> hands to
  \<^verbatim>\<open>_trim_columns\<close>: \<^verbatim>\<open>os.path.join(root, file)\<close> for every walked file with the suffix.
\<close>

definition trim_inputs :: "filesystem \<Rightarrow> string \<Rightarrow> string list" where
  "trim_inputs fs processed_dir =
     map (\<lambda>rf. path_join (fst rf) (snd rf))
       (filter (\<lambda>rf. trim_selects (snd rf)) (walk fs processed_dir))"

definition trim_run ::
  "collaborators \<Rightarrow> string \<Rightarrow> string \<Rightarrow> string \<Rightarrow> filesystem \<Rightarrow> outcome" where
  "trim_run env name processed_dir trimmed_dir fs =
     and_then (makedirs fs trimmed_dir) (\<lambda>fs1.
       for_each (trim_columns env trimmed_dir columns_to_remove) fs1
         (trim_inputs fs1 processed_dir))"

text \<open>\<^verbatim>\<open>CleanupTask.run\<close>: the deletion loop, then the sentinel.\<close>

fun cleanup_loop :: "filesystem \<Rightarrow> string list \<Rightarrow> outcome" where
  "cleanup_loop fs [] = Inr fs"
| "cleanup_loop fs (directory # ds) =
     (if path_exists fs directory
      then and_then (rmtree fs directory) (\<lambda>fs1. cleanup_loop fs1 ds)
      else cleanup_loop fs ds)"

definition cleanup_run :: "string \<Rightarrow> string list \<Rightarrow> filesystem \<Rightarrow> outcome" where
  "cleanup_run name cleanup_dirs fs =
     and_then (cleanup_loop fs cleanup_dirs) (\<lambda>fs1.
       write_file fs1 (output_path (CleanupTask name cleanup_dirs)) ''Cleanup completed.'')"

text \<open>The \<^verbatim>\<open>run\<close> method of a task.\<close>

fun run :: "collaborators \<Rightarrow> task \<Rightarrow> filesystem \<Rightarrow> outcome" where
  "run env (DownloadDatasetTask name download_dir) fs = download_run env name download_dir fs"
| "run env (ExtractDatasetTask name download_dir extract_dir) fs =
     extract_run env name download_dir extract_dir fs"
| "run env (ProcessDatasetTask name extract_dir processed_dir) fs =
     process_run env name extract_dir processed_dir fs"
| "run env (TrimDatasetColumnsTask name processed_dir trimmed_dir) fs =
     trim_run env name processed_dir trimmed_dir fs"
| "run env (CleanupTask name cleanup_dirs) fs = cleanup_run name cleanup_dirs fs"

text \<open>The locations a task is given are in normal form.\<close>

fun normal_task :: "task \<Rightarrow> bool" where
  "normal_task (DownloadDatasetTask name download_dir) =
     (normal_form download_dir \<and> normal_form (name @ ''_RAW.tar''))"
| "normal_task (ExtractDatasetTask name download_dir extract_dir) =
     (normal_form download_dir \<and> normal_form (name @ ''_RAW.tar'') \<and> normal_form extract_dir)"
| "normal_task (ProcessDatasetTask name extract_dir processed_dir) =
     (normal_form extract_dir \<and> normal_form processed_dir)"
| "normal_task (TrimDatasetColumnsTask name processed_dir trimmed_dir) =
     (normal_form processed_dir \<and> normal_form trimmed_dir)"
| "normal_task (CleanupTask name cleanup_dirs) = list_all normal_form cleanup_dirs"

section \<open>Resolver, completion gate and runner\<close>

text \<open>
  The position of a task's class in the chain; a required task always stands lower.
\<close>

fun stage :: "task \<Rightarrow> nat" where
  "stage (DownloadDatasetTask _ _) = 1"
| "stage (ExtractDatasetTask _ _ _) = 2"
| "stage (ProcessDatasetTask _ _ _) = 3"
| "stage (TrimDatasetColumnsTask _ _ _) = 4"
| "stage (CleanupTask _ _) = 5"

text \<open>
  Modelled from the spec: the Dependency Resolver, which the repository leaves to the
  luigi library. Section 4.3: depth-first traversal from the target through the
  dependencies, recording tasks in post-order and de-duplicating by identity (name and
  parameters, here equality of tasks). \<open>visit\<close> extends the order found so far.
\<close>

function visit :: "task list \<Rightarrow> task \<Rightarrow> task list" where
  "visit order t = (if t \<in> set order then order else foldl visit order (requires t) @ [t])"
  by pat_completeness auto
termination
  apply (relation "measure (\<lambda>(order, t). stage t)")
   apply simp
  apply simp
  subgoal for order t x by (cases t) auto
  done

definition resolve :: "task \<Rightarrow> task list" where
  "resolve target = visit [] target"

text \<open>
  Modelled from the spec: the Completion Gate, section 4.4: a task is complete when its
  output exists, and nothing else is looked at.
\<close>

definition is_complete :: "filesystem \<Rightarrow> task \<Rightarrow> bool" where
  "is_complete fs t = path_exists fs (output_path t)"

text \<open>
  Modelled from the spec: the Pipeline Runner, section 4.5, which the repository leaves
  to the luigi library. For each task of the resolved order: a complete task is skipped;
  otherwise it is executed, on success the runner goes on, on failure it stops and
  reports the task and its error. The report holds the state the run left, what happened
  to each task that was reached, and the failure if there was one.
\<close>

datatype event = Skipped task | Succeeded task | Failed task error

record report =
  final :: filesystem
  events :: "event list"
  failure :: "(task \<times> error) option"

fun run_order :: "collaborators \<Rightarrow> filesystem \<Rightarrow> task list \<Rightarrow> report" where
  "run_order env fs [] = \<lparr>final = fs, events = [], failure = None\<rparr>"
| "run_order env fs (t # ts) =
     (if is_complete fs t
      then (let r = run_order env fs ts in r\<lparr>events := Skipped t # events r\<rparr>)
      else (case run env t fs of
              Inl (e, fs1) \<Rightarrow> \<lparr>final = fs1, events = [Failed t e], failure = Some (t, e)\<rparr>
            | Inr fs1 \<Rightarrow> (let r = run_order env fs1 ts in r\<lparr>events := Succeeded t # events r\<rparr>)))"

definition run_pipeline :: "collaborators \<Rightarrow> filesystem \<Rightarrow> task \<Rightarrow> report" where
  "run_pipeline env fs target = run_order env fs (resolve target)"

text \<open>The tasks whose body a run entered, in the order of the run.\<close>

fun executed :: "event list \<Rightarrow> task list" where
  "executed [] = []"
| "executed (Skipped t # evs) = executed evs"
| "executed (Succeeded t # evs) = t # executed evs"
| "executed (Failed t e # evs) = t # executed evs"

text \<open>
  Modelled from the spec: the Pipeline Runner as the program starts it, with
  \<^verbatim>\<open>luigi.run()\<close> on the last line of the file; the scheduler itself is the library's and
  is not in the repository. It applies the completion check of section 4.4 when the run
  is scheduled, from the target down: a task that is complete is not run, and its
  dependencies are neither examined nor run; an incomplete task is scheduled after its
  dependencies. \<open>pending\<close> extends the list of the tasks scheduled so far. The scheduled
  tasks then run in this order; a task whose dependency is not complete when its turn
  comes fails without running; after a failure nothing else runs, since every later
  task of a chain depends on the failed one.
\<close>

function pending :: "filesystem \<Rightarrow> task list \<Rightarrow> task \<Rightarrow> task list" where
  "pending fs order t =
     (if t \<in> set order \<or> is_complete fs t then order
      else foldl (pending fs) order (requires t) @ [t])"
  by pat_completeness auto
termination
  apply (relation "measure (\<lambda>(fs, order, t). stage t)")
   apply simp
  apply simp
  subgoal for fs order t x by (cases t) auto
  done

definition luigi_plan :: "filesystem \<Rightarrow> task \<Rightarrow> task list" where
  "luigi_plan fs target = pending fs [] target"

fun run_plan :: "collaborators \<Rightarrow> filesystem \<Rightarrow> task list \<Rightarrow> report" where
  "run_plan env fs [] = \<lparr>final = fs, events = [], failure = None\<rparr>"
| "run_plan env fs (t # ts) =
     (if list_ex (\<lambda>d. \<not> is_complete fs d) (requires t)
      then \<lparr>final = fs, events = [Failed t UnfulfilledDependency],
            failure = Some (t, UnfulfilledDependency)\<rparr>
      else (case run env t fs of
              Inl (e, fs1) \<Rightarrow> \<lparr>final = fs1, events = [Failed t e], failure = Some (t, e)\<rparr>
            | Inr fs1 \<Rightarrow> (let r = run_plan env fs1 ts in r\<lparr>events := Succeeded t # events r\<rparr>)))"

definition luigi_run :: "collaborators \<Rightarrow> filesystem \<Rightarrow> task \<Rightarrow> report" where
  "luigi_run env fs target = run_plan env fs (luigi_plan fs target)"

section \<open>A sample world\<close>

text \<open>
  Concrete collaborators on which the definitions can be run: the archive of the default
  dataset holds one compressed table with two of the four columns that the trim stage
  removes. In the second world the archive cannot be read.
\<close>

definition sample_frame :: dataframe where
  "sample_frame =
     \<lparr>columns = [''ID'', ''Definition'', ''Symbol'', ''Ontology_Process''],
      rows = [[''1'', ''d1'', ''s1'', ''p1''], [''2'', ''d2'', ''s2'', ''p2'']]\<rparr>"

definition sample_env :: collaborators where
  "sample_env =
     \<lparr>wget_download = (\<lambda>url. if url = download_url ''GSE68849'' then Inr ''TAR''
                              else Inl (CollaboratorError ''wget'')),
      tar_members = (\<lambda>bytes. if bytes = ''TAR'' then Inr [(''foo.txt.gz'', File ''GZ'')]
                              else Inl (CollaboratorError ''tarfile'')),
      gzip_read = (\<lambda>bytes. if bytes = ''GZ'' then Inr ''TSV''
                            else Inl (CollaboratorError ''gzip'')),
      read_csv = (\<lambda>bytes. if bytes = ''TSV'' then Inr sample_frame
                           else Inl (CollaboratorError ''pandas'')),
      to_csv = (\<lambda>df. concat (columns df) @ concat (concat (rows df)))\<rparr>"

definition broken_archive_env :: collaborators where
  "broken_archive_env =
     sample_env\<lparr>tar_members := (\<lambda>bytes. Inl (CollaboratorError ''tarfile''))\<rparr>"

definition default_target :: task where
  "default_target = CleanupTask default_dataset_name default_cleanup_dirs"

definition trim_target :: task where
  "trim_target = TrimDatasetColumnsTask default_dataset_name default_processed_dir default_trimmed_dir"

section \<open>Properties of names and paths\<close>

lemma replace_ne_skip:
  "\<forall>i<length s. \<not> prefix old (drop i s @ t) \<Longrightarrow>
   replace_ne old new (s @ t) = s @ replace_ne old new t"
proof (induction s)
  case Nil
  then show ?case by simp
next
  case (Cons c s)
  have h0: "\<not> prefix old (c # s @ t)"
    using Cons.prems by (auto dest: spec [of _ 0])
  have "\<forall>i<length s. \<not> prefix old (drop i s @ t)"
  proof (intro allI impI)
    fix i assume "i < length s"
    then have "Suc i < length (c # s)" by simp
    with Cons.prems have "\<not> prefix old (drop (Suc i) (c # s) @ t)" by blast
    then show "\<not> prefix old (drop i s @ t)" by simp
  qed
  with Cons.IH have "replace_ne old new (s @ t) = s @ replace_ne old new t" by blast
  with h0 show ?case by simp
qed

lemma basename_append_slash:
  "CHR ''/'' \<notin> set f \<Longrightarrow> basename (r @ CHR ''/'' # f) = f"
proof -
  assume a: "CHR ''/'' \<notin> set f"
  have "takeWhile (\<lambda>c. c \<noteq> CHR ''/'') (rev f @ CHR ''/'' # rev r) = rev f"
    using a by (subst takeWhile_append2) auto
  then show ?thesis by (simp add: basename_def)
qed

lemma basename_plain:
  "CHR ''/'' \<notin> set f \<Longrightarrow> basename f = f"
proof -
  assume a: "CHR ''/'' \<notin> set f"
  have "takeWhile (\<lambda>c. c \<noteq> CHR ''/'') (rev f) = rev f"
    by (rule takeWhile_eq_all_conv [THEN iffD2]) (use a in auto)
  then show ?thesis unfolding basename_def by (simp only: rev_rev_ident)
qed

lemma endswith_slash:
  "endswith a ''/'' \<Longrightarrow> \<exists>r. a = r @ ''/''"
  by (cases a rule: rev_cases) (auto simp: endswith_def)

lemma basename_join:
  assumes "CHR ''/'' \<notin> set f"
  shows "basename (path_join r f) = f"
proof -
  have ns: "\<not> startswith f ''/''"
    using assms by (cases f) (auto simp: startswith_def)
  show ?thesis
  proof (cases "r = [] \<or> endswith r ''/''")
    case True
    then show ?thesis
    proof
      assume "r = []"
      with ns assms show ?thesis by (simp add: path_join_def basename_plain)
    next
      assume "endswith r ''/''"
      then obtain r' where "r = r' @ ''/''" using endswith_slash by blast
      with ns assms show ?thesis
        using basename_append_slash [of f r'] by (simp add: path_join_def endswith_def)
    qed
  next
    case False
    with ns assms show ?thesis
      using basename_append_slash [of f r] by (simp add: path_join_def)
  qed
qed

text \<open>
  Claim C1, as the code has it. For an input file \<^verbatim>\<open>foo.txt.gz\<close>, and for any stem in
  place of \<^verbatim>\<open>foo\<close> that has no slash and in which neither \<^verbatim>\<open>.gz\<close> nor
  \<^verbatim>\<open>_processed.txt\<close> begins, the normalize stage selects the file and writes
  \<^verbatim>\<open>foo.txt_processed.txt\<close> in its directory, and the project stage selects that file and
  writes \<^verbatim>\<open>foo.txt_trimmed.txt\<close> in its directory: the replacement of \<^verbatim>\<open>.gz\<close> leaves
  the inner \<^verbatim>\<open>.txt\<close> in place.
\<close>

theorem filename_transformation:
  assumes "CHR ''/'' \<notin> set stem"
    and "\<forall>i<length stem. \<not> prefix ''.gz'' (drop i stem @ ''.txt.gz'')"
    and "\<forall>i<length stem. \<not> prefix ''_processed.txt'' (drop i stem @ ''.txt_processed.txt'')"
  shows "process_selects (stem @ ''.txt.gz'')
    \<and> decompress_output_path processed_dir (path_join root (stem @ ''.txt.gz''))
        = path_join processed_dir (stem @ ''.txt_processed.txt'')
    \<and> trim_selects (stem @ ''.txt_processed.txt'')
    \<and> trim_output_path trimmed_dir (path_join root' (stem @ ''.txt_processed.txt''))
        = path_join trimmed_dir (stem @ ''.txt_trimmed.txt'')"
proof -
  have b1: "basename (path_join root (stem @ ''.txt.gz'')) = stem @ ''.txt.gz''"
    using assms(1) by (intro basename_join) simp
  have b2: "basename (path_join root' (stem @ ''.txt_processed.txt'')) = stem @ ''.txt_processed.txt''"
    using assms(1) by (intro basename_join) simp
  have r1: "replace_ne ''.gz'' ''_processed.txt'' (stem @ ''.txt.gz'') = stem @ ''.txt_processed.txt''"
    using replace_ne_skip [OF assms(2), of "''_processed.txt''"] by simp
  have r2: "replace_ne ''_processed.txt'' ''_trimmed.txt'' (stem @ ''.txt_processed.txt'')
      = stem @ ''.txt_trimmed.txt''"
    using replace_ne_skip [OF assms(3), of "''_trimmed.txt''"] by simp
  have s1: "process_selects (stem @ ''.txt.gz'')"
    by (simp add: process_selects_def endswith_def)
  have s2: "trim_selects (stem @ ''.txt_processed.txt'')"
    by (simp add: trim_selects_def endswith_def)
  show ?thesis
    using s1 s2 by (simp add: decompress_output_path_def trim_output_path_def replace_def b1 b2 r1 r2)
qed

theorem filename_transformation_witness:
  "decompress_output_path ''data_processed'' (path_join ''data_extracted'' ''foo.txt.gz'')
     = ''data_processed/foo.txt_processed.txt''
   \<and> trim_output_path ''data_trimmed'' (path_join ''data_processed'' ''foo.txt_processed.txt'')
     = ''data_trimmed/foo.txt_trimmed.txt''
   \<and> process_selects ''foo.txt.gz'' \<and> trim_selects ''foo.txt_processed.txt''"
proof -
  have h1: "CHR ''/'' \<notin> set ''foo''" by simp
  have h2: "\<forall>i<length ''foo''. \<not> prefix ''.gz'' (drop i ''foo'' @ ''.txt.gz'')"
    by (simp add: less_Suc_eq)
  have h3: "\<forall>i<length ''foo''. \<not> prefix ''_processed.txt'' (drop i ''foo'' @ ''.txt_processed.txt'')"
    by (simp add: less_Suc_eq)
  show ?thesis
    using filename_transformation [OF h1 h2 h3, of "''data_processed''" "''data_extracted''"
        "''data_trimmed''" "''data_processed''"]
    by (simp add: path_join_def startswith_def endswith_def)
qed

text \<open>
  Claim C1 as the spec states it fails: the file written for \<^verbatim>\<open>foo.txt.gz\<close> is not
  \<^verbatim>\<open>foo_processed.txt\<close>.
\<close>

theorem normalize_name_counterexample:
  "decompress_output_path ''data_processed'' (path_join ''data_extracted'' ''foo.txt.gz'')
     \<noteq> path_join ''data_processed'' ''foo_processed.txt''"
  by (simp add: decompress_output_path_def basename_def path_join_def startswith_def
      endswith_def replace_def)

section \<open>Properties of the dependencies\<close>

text \<open>The dataset identity is handed to every required task.\<close>

lemma requires_same_dataset:
  "d \<in> set (requires t) \<Longrightarrow> task_dataset_name d = task_dataset_name t"
  by (cases t) auto

text \<open>
  Claim C3 at a failing input. The normalize task is given an extraction directory of its
  own; the unpack task it requires is built with the default directory, so the override
  is not threaded upstream, while the unpack task does hand its download directory to
  the acquire task it requires. The normalize stage then walks a directory that its
  upstream never wrote: it succeeds and decompresses nothing.
\<close>

theorem extract_dir_override_dropped:
  "requires (ProcessDatasetTask ''GSE68849'' ''custom_extracted'' ''data_processed'')
     = [ExtractDatasetTask ''GSE68849'' ''data_downloads'' ''data_extracted'']
   \<and> output_path (ExtractDatasetTask ''GSE68849'' ''data_downloads'' ''data_extracted'')
     \<noteq> ''custom_extracted''
   \<and> requires (ExtractDatasetTask ''GSE68849'' ''custom_downloads'' ''data_extracted'')
     = [DownloadDatasetTask ''GSE68849'' ''custom_downloads'']
   \<and> process_run sample_env ''GSE68849'' ''custom_extracted'' ''data_processed''
       [(''data_extracted/foo.txt.gz'', File ''GZ''), (''data_extracted'', Dir)]
     = Inr [(''data_processed'', Dir), (''data_extracted/foo.txt.gz'', File ''GZ''),
            (''data_extracted'', Dir)]"
proof -
  have "process_run sample_env ''GSE68849'' ''custom_extracted'' ''data_processed''
       [(''data_extracted/foo.txt.gz'', File ''GZ''), (''data_extracted'', Dir)]
     = Inr [(''data_processed'', Dir), (''data_extracted/foo.txt.gz'', File ''GZ''),
            (''data_extracted'', Dir)]"
    by code_simp
  then show ?thesis by (simp add: default_download_dir_def default_extract_dir_def)
qed

section \<open>Properties of the column projection\<close>

lemma zip_filter_labels:
  "length xs = length ys \<Longrightarrow>
   zip (filter P xs) (map snd (filter (\<lambda>cv. P (fst cv)) (zip xs ys)))
     = filter (\<lambda>cv. P (fst cv)) (zip xs ys)"
  by (induction xs ys rule: list_induct2) auto

lemma filter_labels_id:
  "length xs = length ys \<Longrightarrow> \<forall>x\<in>set xs. P x \<Longrightarrow>
   map snd (filter (\<lambda>cv. P (fst cv)) (zip xs ys)) = ys"
  by (induction xs ys rule: list_induct2) auto

lemma length_keep_cells:
  "length labels = length r \<Longrightarrow>
   length (keep_cells labels cols r) = length (filter (\<lambda>c. c \<notin> set cols) labels)"
  unfolding keep_cells_def
  by (induction labels r rule: list_induct2) auto

text \<open>
  What \<^verbatim>\<open>df.drop(columns=..., errors='ignore')\<close> does to a rectangular table, as every
  \<^verbatim>\<open>DataFrame\<close> is: exactly the columns that are not among the four are left, in their
  order; the number of rows is kept; row \<open>i\<close> of the output holds, under the labels kept,
  the cells that row \<open>i\<close> of the input holds under them; the output is well formed; and
  a table with none of the four columns is returned unchanged.
\<close>

lemma drop_columns_projection:
  assumes "well_formed df"
  shows "columns (drop_columns df columns_to_remove)
           = filter (\<lambda>c. c \<notin> set columns_to_remove) (columns df)
    \<and> length (rows (drop_columns df columns_to_remove)) = length (rows df)
    \<and> (\<forall>i<length (rows df).
          zip (columns (drop_columns df columns_to_remove))
              (rows (drop_columns df columns_to_remove) ! i)
            = filter (\<lambda>cv. fst cv \<notin> set columns_to_remove) (zip (columns df) (rows df ! i)))
    \<and> well_formed (drop_columns df columns_to_remove)
    \<and> (set (columns df) \<inter> set columns_to_remove = {}
          \<longrightarrow> drop_columns df columns_to_remove = df)"
proof -
  let ?cols = columns_to_remove
  have len: "\<And>r. r \<in> set (rows df) \<Longrightarrow> length (columns df) = length r"
    using assms by (auto simp: well_formed_def list_all_iff)
  have c3: "\<forall>i<length (rows df).
          zip (columns (drop_columns df ?cols)) (rows (drop_columns df ?cols) ! i)
            = filter (\<lambda>cv. fst cv \<notin> set ?cols) (zip (columns df) (rows df ! i))"
  proof (intro allI impI)
    fix i assume i: "i < length (rows df)"
    then have "length (columns df) = length (rows df ! i)" using len by simp
    then show "zip (columns (drop_columns df ?cols)) (rows (drop_columns df ?cols) ! i)
            = filter (\<lambda>cv. fst cv \<notin> set ?cols) (zip (columns df) (rows df ! i))"
      using i zip_filter_labels [of "columns df" "rows df ! i" "\<lambda>c. c \<notin> set ?cols"]
      by (simp add: drop_columns_def keep_cells_def)
  qed
  have c4: "well_formed (drop_columns df ?cols)"
    using len by (auto simp: well_formed_def list_all_iff drop_columns_def length_keep_cells)
  have c5: "set (columns df) \<inter> set ?cols = {} \<longrightarrow> drop_columns df ?cols = df"
  proof
    assume d: "set (columns df) \<inter> set ?cols = {}"
    then have all: "\<forall>c\<in>set (columns df). c \<notin> set ?cols" by blast
    then have f: "filter (\<lambda>c. c \<notin> set ?cols) (columns df) = columns df" by simp
    have "map (keep_cells (columns df) ?cols) (rows df) = rows df"
    proof (rule map_idI)
      fix r assume "r \<in> set (rows df)"
      then have "length (columns df) = length r" by (rule len)
      then show "keep_cells (columns df) ?cols r = r"
        unfolding keep_cells_def using all by (rule filter_labels_id)
    qed
    with f show "drop_columns df ?cols = df" by (simp add: drop_columns_def)
  qed
  show ?thesis using c3 c4 c5 by (simp add: drop_columns_def)
qed

section \<open>Properties of the file system and of the clean and acquire stages\<close>

lemma map_of_filter_key:
  "map_of (filter (\<lambda>e. Q (fst e)) fs) p = (if Q p then map_of fs p else None)"
  by (induction fs) auto

lemma rmtree_lookup:
  "rmtree fs d = Inr fs1 \<Longrightarrow>
   map_of fs1 p = (if p \<noteq> d \<and> \<not> under d p then map_of fs p else None)"
  unfolding rmtree_def
  using map_of_filter_key [of "\<lambda>k. k \<noteq> d \<and> \<not> under d k" fs p]
  by (auto split: option.splits node.splits)

lemma rmtree_succeeds:
  "map_of fs d = Some Dir \<Longrightarrow> \<exists>fs1. rmtree fs d = Inr fs1"
  by (simp add: rmtree_def)

lemma parent_sentinel: "parent ''cleanup_status.done'' = []"
  by (simp add: parent_def)

lemma write_file_lookup:
  "write_file fs p c = Inr fs1 \<Longrightarrow> map_of fs1 q = (if q = p then Some (File c) else map_of fs q)"
  unfolding write_file_def
  using map_of_filter_key [of "\<lambda>k. k \<noteq> p" fs q]
  by (auto split: if_splits)

lemma cleanup_loop_absent:
  "\<forall>d\<in>set dirs. \<not> path_exists fs d \<Longrightarrow> cleanup_loop fs dirs = Inr fs"
  by (induction dirs) auto

lemma under_trans: "under a b \<Longrightarrow> under b c \<Longrightarrow> under a c"
  unfolding under_def by (auto simp: prefix_def)

lemma cleanup_loop_result:
  "\<forall>d\<in>set dirs. \<forall>c. map_of fs d \<noteq> Some (File c) \<Longrightarrow>
   \<exists>fs1. cleanup_loop fs dirs = Inr fs1
     \<and> (\<forall>p. map_of fs1 p
            = (if \<exists>d\<in>set dirs. path_exists fs d \<and> (p = d \<or> under d p) then None
               else map_of fs p))"
proof (induction dirs arbitrary: fs)
  case Nil
  then show ?case by simp
next
  case (Cons d ds)
  show ?case
  proof (cases "path_exists fs d")
    case False
    have "\<forall>x\<in>set ds. \<forall>c. map_of fs x \<noteq> Some (File c)" using Cons.prems by simp
    from Cons.IH [OF this] obtain fs1 where
      l: "cleanup_loop fs ds = Inr fs1" and
      k: "\<forall>p. map_of fs1 p
            = (if \<exists>d\<in>set ds. path_exists fs d \<and> (p = d \<or> under d p) then None
               else map_of fs p)" by blast
    show ?thesis using False l k by auto
  next
    case True
    with Cons.prems have dir: "map_of fs d = Some Dir"
      by (cases "map_of fs d") (auto simp: path_exists_def intro: node.exhaust)
    then obtain fs2 where r: "rmtree fs d = Inr fs2" using rmtree_succeeds by blast
    have look: "\<And>p. map_of fs2 p = (if p \<noteq> d \<and> \<not> under d p then map_of fs p else None)"
      using rmtree_lookup [OF r] by simp
    have "\<forall>x\<in>set ds. \<forall>c. map_of fs2 x \<noteq> Some (File c)"
      using Cons.prems look by auto
    from Cons.IH [OF this] obtain fs1 where
      l: "cleanup_loop fs2 ds = Inr fs1" and
      k: "\<forall>p. map_of fs1 p
            = (if \<exists>d'\<in>set ds. path_exists fs2 d' \<and> (p = d' \<or> under d' p) then None
               else map_of fs2 p)" by blast
    have ex2: "\<And>x. path_exists fs2 x = (path_exists fs x \<and> x \<noteq> d \<and> \<not> under d x)"
      using look by (auto simp: path_exists_def)
    have "\<forall>p. map_of fs1 p
            = (if \<exists>d'\<in>set (d # ds). path_exists fs d' \<and> (p = d' \<or> under d' p) then None
               else map_of fs p)"
    proof
      fix p
      show "map_of fs1 p
            = (if \<exists>d'\<in>set (d # ds). path_exists fs d' \<and> (p = d' \<or> under d' p) then None
               else map_of fs p)"
      proof (cases "p = d \<or> under d p")
        case gone: True
        then have "map_of fs2 p = None" using look by auto
        then have "map_of fs1 p = None" using k by auto
        then show ?thesis using gone True by auto
      next
        case kept: False
        then have same: "map_of fs2 p = map_of fs p" using look by auto
        have "(\<exists>d'\<in>set ds. path_exists fs2 d' \<and> (p = d' \<or> under d' p))
            = (\<exists>d'\<in>set ds. path_exists fs d' \<and> (p = d' \<or> under d' p))"
          using ex2 kept under_trans by blast
        then show ?thesis using k same kept by auto
      qed
    qed
    then show ?thesis using True r l by (auto simp: and_then_def)
  qed
qed



text \<open>
  Claim C10. Take a normal state and normal-form cleanup locations, none of them a
  regular file, and let the sentinel path not be a directory (the two cases in which
  \<^verbatim>\<open>rmtree\<close> or the opening of the sentinel itself raises). Then the clean stage
  succeeds, however many of the configured locations exist, and the state it leaves is
  this: the sentinel holds its text; every configured location that existed is gone with
  all that lay inside it; every other entry is as it was. In particular no configured
  location exists afterwards. A location that does not exist is passed over and the loop
  goes on with the same state; one that exists is removed and the loop goes on with
  the state \<^verbatim>\<open>rmtree\<close> leaves; and when none exists the stage does nothing but write the
  sentinel.
\<close>

theorem cleanup_tolerates_absent:
  assumes "normal_state fs" and "list_all normal_form cleanup_dirs"
    and "\<forall>d\<in>set cleanup_dirs. \<forall>c. map_of fs d \<noteq> Some (File c)"
    and "map_of fs ''cleanup_status.done'' \<noteq> Some Dir"
  shows "(\<exists>fs1. cleanup_run name cleanup_dirs fs = Inr fs1
            \<and> (\<forall>p. map_of fs1 p
                  = (if p = ''cleanup_status.done'' then Some (File ''Cleanup completed.'')
                     else if \<exists>d\<in>set cleanup_dirs. path_exists fs d \<and> (p = d \<or> under d p)
                       then None
                     else map_of fs p))
            \<and> (\<forall>d\<in>set cleanup_dirs. d \<noteq> ''cleanup_status.done'' \<longrightarrow> \<not> path_exists fs1 d))
    \<and> (\<forall>d ds. \<not> path_exists fs d \<longrightarrow> cleanup_loop fs (d # ds) = cleanup_loop fs ds)
    \<and> (\<forall>d ds. path_exists fs d \<longrightarrow>
          cleanup_loop fs (d # ds) = and_then (rmtree fs d) (\<lambda>fs1. cleanup_loop fs1 ds))
    \<and> ((\<forall>d\<in>set cleanup_dirs. \<not> path_exists fs d) \<longrightarrow>
          cleanup_run name cleanup_dirs fs
            = Inr ((''cleanup_status.done'', File ''Cleanup completed.'')
                   # filter (\<lambda>e. fst e \<noteq> ''cleanup_status.done'') fs))"
proof -
  obtain fs2 where l: "cleanup_loop fs cleanup_dirs = Inr fs2"
    and k: "\<forall>p. map_of fs2 p
            = (if \<exists>d\<in>set cleanup_dirs. path_exists fs d \<and> (p = d \<or> under d p) then None
               else map_of fs p)"
    using cleanup_loop_result [OF assms(3)] by blast
  have "map_of fs2 ''cleanup_status.done'' = None
      \<or> map_of fs2 ''cleanup_status.done'' = map_of fs ''cleanup_status.done''"
    using k [rule_format, of "''cleanup_status.done''"] by (simp split: if_splits)
  then have nd: "map_of fs2 ''cleanup_status.done'' \<noteq> Some Dir"
    using assms(4) by auto
  then obtain fs1 where w: "write_file fs2 ''cleanup_status.done'' ''Cleanup completed.'' = Inr fs1"
    by (simp add: write_file_def parent_sentinel)
  have run: "cleanup_run name cleanup_dirs fs = Inr fs1"
    using l w by (simp add: cleanup_run_def and_then_def)
  have look: "\<forall>p. map_of fs1 p
                  = (if p = ''cleanup_status.done'' then Some (File ''Cleanup completed.'')
                     else if \<exists>d\<in>set cleanup_dirs. path_exists fs d \<and> (p = d \<or> under d p)
                       then None
                     else map_of fs p)"
    using write_file_lookup [OF w] k by simp
  have gone: "\<forall>d\<in>set cleanup_dirs. d \<noteq> ''cleanup_status.done'' \<longrightarrow> \<not> path_exists fs1 d"
  proof (intro ballI impI)
    fix d assume d: "d \<in> set cleanup_dirs" and ns: "d \<noteq> ''cleanup_status.done''"
    show "\<not> path_exists fs1 d"
    proof (cases "path_exists fs d")
      case True
      with d have "\<exists>d'\<in>set cleanup_dirs. path_exists fs d' \<and> (d = d' \<or> under d' d)" by blast
      with look ns show ?thesis by (simp add: path_exists_def)
    next
      case False
      with look ns show ?thesis by (auto simp: path_exists_def)
    qed
  qed
  have a: "\<exists>fs1. cleanup_run name cleanup_dirs fs = Inr fs1
            \<and> (\<forall>p. map_of fs1 p
                  = (if p = ''cleanup_status.done'' then Some (File ''Cleanup completed.'')
                     else if \<exists>d\<in>set cleanup_dirs. path_exists fs d \<and> (p = d \<or> under d p)
                       then None
                     else map_of fs p))
            \<and> (\<forall>d\<in>set cleanup_dirs. d \<noteq> ''cleanup_status.done'' \<longrightarrow> \<not> path_exists fs1 d)"
    using run look gone by blast
  have b: "\<forall>d ds. \<not> path_exists fs d \<longrightarrow> cleanup_loop fs (d # ds) = cleanup_loop fs ds"
    by simp
  have b2: "\<forall>d ds. path_exists fs d \<longrightarrow>
          cleanup_loop fs (d # ds) = and_then (rmtree fs d) (\<lambda>fs1. cleanup_loop fs1 ds)"
    by simp
  have c: "(\<forall>d\<in>set cleanup_dirs. \<not> path_exists fs d) \<longrightarrow>
          cleanup_run name cleanup_dirs fs
            = Inr ((''cleanup_status.done'', File ''Cleanup completed.'')
                   # filter (\<lambda>e. fst e \<noteq> ''cleanup_status.done'') fs)"
    using assms(4)
    by (auto simp: cleanup_run_def and_then_def cleanup_loop_absent write_file_def parent_sentinel)
  show ?thesis using a b b2 c by blast
qed


lemma cleanup_loop_only_removes:
  "cleanup_loop fs dirs = Inr fs1 \<Longrightarrow> map_of fs1 p = None \<or> map_of fs1 p = map_of fs p"
proof (induction dirs arbitrary: fs)
  case Nil
  then show ?case by simp
next
  case (Cons d ds)
  show ?case
  proof (cases "path_exists fs d")
    case False
    with Cons show ?thesis by simp
  next
    case True
    with Cons.prems obtain fs2 where r: "rmtree fs d = Inr fs2" and l: "cleanup_loop fs2 ds = Inr fs1"
      by (cases "rmtree fs d") (auto simp: and_then_def)
    from Cons.IH [OF l] rmtree_lookup [OF r, of p] show ?thesis by auto
  qed
qed

text \<open>
  Witness for C10: one configured location exists and is deleted with the archive inside
  it, the other does not exist, the project output is untouched, the sentinel is written.
\<close>

theorem cleanup_witness:
  "\<exists>fs1. cleanup_run ''GSE68849'' default_cleanup_dirs
       [(''data_downloads/GSE68849_RAW.tar'', File ''TAR''), (''data_downloads'', Dir),
        (''data_trimmed'', Dir)] = Inr fs1
     \<and> map_of fs1 ''cleanup_status.done'' = Some (File ''Cleanup completed.'')
     \<and> map_of fs1 ''data_downloads'' = None
     \<and> map_of fs1 ''data_downloads/GSE68849_RAW.tar'' = None
     \<and> map_of fs1 ''data_trimmed'' = Some Dir"
proof -
  let ?fs = "[(''data_downloads/GSE68849_RAW.tar'', File ''TAR''), (''data_downloads'', Dir),
        (''data_trimmed'', Dir)]"
  have h0: "normal_state ?fs" by (simp add: normal_state_def normal_form_def)
  have h0': "list_all normal_form default_cleanup_dirs"
    by (simp add: default_cleanup_dirs_def normal_form_def)
  have h1: "\<forall>d\<in>set default_cleanup_dirs. \<forall>c. map_of ?fs d \<noteq> Some (File c)"
    by (simp add: default_cleanup_dirs_def)
  have h2: "map_of ?fs ''cleanup_status.done'' \<noteq> Some Dir" by simp
  from cleanup_tolerates_absent [OF h0 h0' h1 h2, of "''GSE68849''"]
  obtain fs1 where r: "cleanup_run ''GSE68849'' default_cleanup_dirs ?fs = Inr fs1"
    and look: "\<forall>p. map_of fs1 p
                  = (if p = ''cleanup_status.done'' then Some (File ''Cleanup completed.'')
                     else if \<exists>d\<in>set default_cleanup_dirs. path_exists ?fs d \<and> (p = d \<or> under d p)
                       then None
                     else map_of ?fs p)" by blast
  have 1: "map_of fs1 ''cleanup_status.done'' = Some (File ''Cleanup completed.'')"
    using look by simp
  have 2: "map_of fs1 ''data_downloads'' = None"
    using look by (simp add: default_cleanup_dirs_def path_exists_def)
  have 3: "map_of fs1 ''data_downloads/GSE68849_RAW.tar'' = None"
    using look by (simp add: default_cleanup_dirs_def path_exists_def under_def)
  have 4: "map_of fs1 ''data_trimmed'' = Some Dir"
    using look by (simp add: default_cleanup_dirs_def path_exists_def under_def)
  show ?thesis using r 1 2 3 4 by blast
qed

text \<open>
  Claim C4, as the code has it. When the clean stage succeeds, its output reference is
  the file \<^verbatim>\<open>cleanup_status.done\<close>, that file holds the completion text, it is the only
  path the stage has brought into existence, and it is the output of the clean task of
  every dataset and every list of cleanup locations: the sentinel tells that a clean
  stage has completed, not for which dataset.
\<close>

theorem sentinel_written:
  assumes "cleanup_run name cleanup_dirs fs = Inr fs1"
  shows "output_path (CleanupTask name cleanup_dirs) = ''cleanup_status.done''
    \<and> map_of fs1 (output_path (CleanupTask name cleanup_dirs)) = Some (File ''Cleanup completed.'')
    \<and> (\<forall>p. path_exists fs1 p \<and> \<not> path_exists fs p \<longrightarrow> p = ''cleanup_status.done'')
    \<and> (\<forall>name' dirs'. path_exists fs1 (output_path (CleanupTask name' dirs')))"
proof -
  from assms obtain fs2 where l: "cleanup_loop fs cleanup_dirs = Inr fs2"
    and w: "write_file fs2 ''cleanup_status.done'' ''Cleanup completed.'' = Inr fs1"
    by (cases "cleanup_loop fs cleanup_dirs") (auto simp: cleanup_run_def and_then_def)
  have s: "map_of fs1 ''cleanup_status.done'' = Some (File ''Cleanup completed.'')"
    using write_file_lookup [OF w] by simp
  have new: "\<forall>p. path_exists fs1 p \<and> \<not> path_exists fs p \<longrightarrow> p = ''cleanup_status.done''"
  proof (intro allI impI)
    fix p assume a: "path_exists fs1 p \<and> \<not> path_exists fs p"
    show "p = ''cleanup_status.done''"
    proof (rule ccontr)
      assume "p \<noteq> ''cleanup_status.done''"
      then have "map_of fs1 p = map_of fs2 p" using write_file_lookup [OF w, of p] by simp
      moreover have "map_of fs2 p = None \<or> map_of fs2 p = map_of fs p"
        using cleanup_loop_only_removes [OF l] .
      ultimately show False using a by (auto simp: path_exists_def)
    qed
  qed
  show ?thesis using s new by (simp add: path_exists_def)
qed

text \<open>Witness for C4: the clean stage on the empty state.\<close>

theorem sentinel_written_witness:
  "path_exists [(''cleanup_status.done'', File ''Cleanup completed.'')]
     (output_path (CleanupTask ''GSE68849'' default_cleanup_dirs))"
proof -
  have h: "cleanup_run ''GSE68849'' default_cleanup_dirs []
      = Inr [(''cleanup_status.done'', File ''Cleanup completed.'')]"
    by (simp add: cleanup_run_def default_cleanup_dirs_def path_exists_def and_then_def
        write_file_def parent_def)
  show ?thesis using sentinel_written [OF h] by blast
qed

text \<open>
  Claim C4 as the spec states it fails: after the clean stage of dataset
  \<^verbatim>\<open>GSE68849\<close> alone has run, the output of the clean task of dataset \<^verbatim>\<open>GSE00001\<close>
  exists.
\<close>

theorem sentinel_dataset_counterexample:
  "cleanup_run ''GSE68849'' default_cleanup_dirs []
     = Inr [(''cleanup_status.done'', File ''Cleanup completed.'')]
   \<and> path_exists [(''cleanup_status.done'', File ''Cleanup completed.'')]
       (output_path (CleanupTask ''GSE00001'' default_cleanup_dirs))
   \<and> ''GSE00001'' \<noteq> ''GSE68849''"
  by (simp add: cleanup_run_def default_cleanup_dirs_def path_exists_def and_then_def
      write_file_def parent_def)





section \<open>Properties of the resolved order\<close>

text \<open>The resolved order of each of the five task classes.\<close>

lemma resolve_download: "resolve (DownloadDatasetTask n dl) = [DownloadDatasetTask n dl]"
  by (simp add: resolve_def)

lemma resolve_extract:
  "resolve (ExtractDatasetTask n dl ex) = [DownloadDatasetTask n dl, ExtractDatasetTask n dl ex]"
  by (simp add: resolve_def)

lemma resolve_process:
  "resolve (ProcessDatasetTask n ex pr) =
     [DownloadDatasetTask n default_download_dir,
      ExtractDatasetTask n default_download_dir default_extract_dir,
      ProcessDatasetTask n ex pr]"
  by (simp add: resolve_def)

lemma resolve_trim:
  "resolve (TrimDatasetColumnsTask n pr tr) =
     [DownloadDatasetTask n default_download_dir,
      ExtractDatasetTask n default_download_dir default_extract_dir,
      ProcessDatasetTask n default_extract_dir default_processed_dir,
      TrimDatasetColumnsTask n pr tr]"
  by (simp add: resolve_def)

lemma resolve_cleanup:
  "resolve (CleanupTask n dirs) =
     [DownloadDatasetTask n default_download_dir,
      ExtractDatasetTask n default_download_dir default_extract_dir,
      ProcessDatasetTask n default_extract_dir default_processed_dir,
      TrimDatasetColumnsTask n default_processed_dir default_trimmed_dir,
      CleanupTask n dirs]"
  by (simp add: resolve_def)

lemmas resolve_simps = resolve_download resolve_extract resolve_process resolve_trim resolve_cleanup

lemma resolve_distinct: "distinct (resolve target)"
  by (cases target) (simp_all add: resolve_simps)

lemma executed_subseq: "subseq (executed (events (run_order env fs ts))) ts"
proof (induction ts arbitrary: fs)
  case Nil
  then show ?case by simp
next
  case (Cons t ts)
  show ?case
  proof (cases "is_complete fs t")
    case True
    then show ?thesis using Cons.IH [of fs] by (auto simp: Let_def)
  next
    case False
    then show ?thesis using Cons.IH
      by (cases "run env t fs") (auto simp: Let_def)
  qed
qed

lemma executed_subset: "set (executed (events (run_order env fs ts))) \<subseteq> set ts"
proof (induction ts arbitrary: fs)
  case Nil
  then show ?case by simp
next
  case (Cons t ts)
  show ?case
  proof (cases "is_complete fs t")
    case True
    then show ?thesis using Cons.IH [of fs] by (auto simp: Let_def)
  next
    case False
    then show ?thesis using Cons.IH
      by (cases "run env t fs") (auto simp: Let_def)
  qed
qed

lemma executed_distinct:
  "distinct ts \<Longrightarrow> distinct (executed (events (run_order env fs ts)))"
proof (induction ts arbitrary: fs)
  case Nil
  then show ?case by simp
next
  case (Cons t ts)
  show ?case
  proof (cases "is_complete fs t")
    case True
    then show ?thesis using Cons by (auto simp: Let_def)
  next
    case False
    then show ?thesis using Cons
      by (cases "run env t fs") (auto simp: Let_def dest: executed_subset [THEN subsetD])
  qed
qed

text \<open>
  Claim C8. For every run target the resolved order has no task twice, ends with the
  target, and holds every dependency of each of its tasks before the first (and only)
  occurrence of that task; a task that is already in the order is not added again; and
  the tasks a run executes are pairwise distinct, so each is executed at most once.
\<close>

theorem resolved_order_topological:
  "distinct (resolve target)
   \<and> resolve target \<noteq> [] \<and> last (resolve target) = target
   \<and> (\<forall>t\<in>set (resolve target). \<forall>d\<in>set (requires t).
        d \<in> set (takeWhile (\<lambda>x. x \<noteq> t) (resolve target)))
   \<and> (\<forall>order. target \<in> set order \<longrightarrow> visit order target = order)
   \<and> distinct (executed (events (run_pipeline env fs target)))"
proof -
  have a: "distinct (resolve target)"
    by (rule resolve_distinct)
  have b: "resolve target \<noteq> [] \<and> last (resolve target) = target"
    by (cases target) (simp_all add: resolve_simps)
  have c: "\<forall>t\<in>set (resolve target). \<forall>d\<in>set (requires t).
        d \<in> set (takeWhile (\<lambda>x. x \<noteq> t) (resolve target))"
    by (cases target) (auto simp: resolve_simps)
  have d: "distinct (executed (events (run_pipeline env fs target)))"
    unfolding run_pipeline_def using a by (rule executed_distinct)
  have e: "\<forall>order. target \<in> set order \<longrightarrow> visit order target = order"
    by simp
  show ?thesis using a b c d e by blast
qed

text \<open>Witness for C8: the order of the default target and a run in the sample world.\<close>

theorem resolved_order_witness:
  "distinct (resolve default_target) \<and> last (resolve default_target) = default_target
   \<and> distinct (executed (events (run_pipeline sample_env [] default_target)))"
  using resolved_order_topological [of default_target sample_env "[]"] by blast

section \<open>Properties of the runner\<close>



lemma no_failed_event:
  "failure (run_order env fs ts) = None \<Longrightarrow> Failed u e \<notin> set (events (run_order env fs ts))"
proof (induction ts arbitrary: fs)
  case Nil
  then show ?case by simp
next
  case (Cons t ts)
  show ?case
  proof (cases "is_complete fs t")
    case True
    then show ?thesis using Cons by (auto simp: Let_def)
  next
    case False
    then show ?thesis using Cons
      by (cases "run env t fs") (auto simp: Let_def)
  qed
qed

lemma failure_splits:
  "failure (run_order env fs ts) = Some (t, e) \<Longrightarrow>
   \<exists>pre post. ts = pre @ t # post
      \<and> failure (run_order env fs pre) = None
      \<and> \<not> is_complete (final (run_order env fs pre)) t
      \<and> run env t (final (run_order env fs pre)) = Inl (e, final (run_order env fs ts))
      \<and> events (run_order env fs ts) = events (run_order env fs pre) @ [Failed t e]"
proof (induction ts arbitrary: fs)
  case Nil
  then show ?case by simp
next
  case (Cons t0 ts)
  show ?case
  proof (cases "is_complete fs t0")
    case True
    with Cons.prems have "failure (run_order env fs ts) = Some (t, e)" by (simp add: Let_def)
    from Cons.IH [OF this] obtain pre post where
      "ts = pre @ t # post" "failure (run_order env fs pre) = None"
      "\<not> is_complete (final (run_order env fs pre)) t"
      "run env t (final (run_order env fs pre)) = Inl (e, final (run_order env fs ts))"
      "events (run_order env fs ts) = events (run_order env fs pre) @ [Failed t e]" by blast
    with True show ?thesis
      by (intro exI [of _ "t0 # pre"] exI [of _ post]) (simp add: Let_def)
  next
    case False
    show ?thesis
    proof (cases "run env t0 fs")
      case (Inl ef)
      with False Cons.prems show ?thesis
        by (intro exI [of _ "[]"] exI [of _ ts]) (auto split: prod.splits)
    next
      case (Inr fs1)
      with False Cons.prems have "failure (run_order env fs1 ts) = Some (t, e)"
        by (simp add: Let_def)
      from Cons.IH [OF this] obtain pre post where
        "ts = pre @ t # post" "failure (run_order env fs1 pre) = None"
        "\<not> is_complete (final (run_order env fs1 pre)) t"
        "run env t (final (run_order env fs1 pre)) = Inl (e, final (run_order env fs1 ts))"
        "events (run_order env fs1 ts) = events (run_order env fs1 pre) @ [Failed t e]" by blast
      with False Inr show ?thesis
        by (intro exI [of _ "t0 # pre"] exI [of _ post]) (simp add: Let_def)
    qed
  qed
qed

lemma executed_append: "executed (xs @ ys) = executed xs @ executed ys"
  by (induction xs rule: executed.induct) auto

lemma run_order_append:
  "failure (run_order env fs pre) = None \<Longrightarrow>
   run_order env fs (pre @ ts)
     = (run_order env (final (run_order env fs pre)) ts)
         \<lparr>events := events (run_order env fs pre)
                     @ events (run_order env (final (run_order env fs pre)) ts)\<rparr>"
proof (induction pre arbitrary: fs)
  case Nil
  then show ?case by simp
next
  case (Cons t pre)
  show ?case
  proof (cases "is_complete fs t")
    case True
    with Cons.prems have "failure (run_order env fs pre) = None" by (simp add: Let_def)
    from Cons.IH [OF this] True show ?thesis by (simp add: Let_def)
  next
    case False
    show ?thesis
    proof (cases "run env t fs")
      case (Inl ef)
      with False Cons.prems show ?thesis by (auto split: prod.splits)
    next
      case (Inr fs1)
      with False Cons.prems have "failure (run_order env fs1 pre) = None" by (simp add: Let_def)
      from Cons.IH [OF this] False Inr show ?thesis by (simp add: Let_def)
    qed
  qed
qed

lemma run_plan_append:
  "failure (run_plan env fs pre) = None \<Longrightarrow>
   run_plan env fs (pre @ ts)
     = (run_plan env (final (run_plan env fs pre)) ts)
         \<lparr>events := events (run_plan env fs pre)
                     @ events (run_plan env (final (run_plan env fs pre)) ts)\<rparr>"
proof (induction pre arbitrary: fs)
  case Nil
  then show ?case by simp
next
  case (Cons t pre)
  show ?case
  proof (cases "list_ex (\<lambda>d. \<not> is_complete fs d) (requires t)")
    case True
    with Cons.prems show ?thesis by simp
  next
    case False
    show ?thesis
    proof (cases "run env t fs")
      case (Inl ef)
      with False Cons.prems show ?thesis by (auto split: prod.splits)
    next
      case (Inr fs1)
      with False Cons.prems have "failure (run_plan env fs1 pre) = None" by (simp add: Let_def)
      from Cons.IH [OF this] False Inr show ?thesis by (simp add: Let_def)
    qed
  qed
qed

lemma plan_executed_subset: "set (executed (events (run_plan env fs ts))) \<subseteq> set ts"
proof (induction ts arbitrary: fs)
  case Nil
  then show ?case by simp
next
  case (Cons t ts)
  show ?case
  proof (cases "list_ex (\<lambda>d. \<not> is_complete fs d) (requires t)")
    case True
    then show ?thesis by simp
  next
    case False
    then show ?thesis using Cons.IH
      by (cases "run env t fs") (auto simp: Let_def)
  qed
qed

lemma plan_no_failed_event:
  "failure (run_plan env fs ts) = None \<Longrightarrow> Failed u e \<notin> set (events (run_plan env fs ts))"
proof (induction ts arbitrary: fs)
  case Nil
  then show ?case by simp
next
  case (Cons t ts)
  show ?case
  proof (cases "list_ex (\<lambda>d. \<not> is_complete fs d) (requires t)")
    case True
    with Cons.prems show ?thesis by simp
  next
    case False
    then show ?thesis using Cons
      by (cases "run env t fs") (auto simp: Let_def)
  qed
qed

text \<open>The scheduled tasks of each of the five task classes.\<close>

lemma luigi_plan_download:
  "luigi_plan fs (DownloadDatasetTask n dl)
     = (if is_complete fs (DownloadDatasetTask n dl) then [] else [DownloadDatasetTask n dl])"
  by (simp add: luigi_plan_def)

lemma luigi_plan_extract:
  "luigi_plan fs (ExtractDatasetTask n dl ex)
     = (if is_complete fs (ExtractDatasetTask n dl ex) then []
        else luigi_plan fs (DownloadDatasetTask n dl) @ [ExtractDatasetTask n dl ex])"
  by (simp add: luigi_plan_def)

lemma luigi_plan_process:
  "luigi_plan fs (ProcessDatasetTask n ex pr)
     = (if is_complete fs (ProcessDatasetTask n ex pr) then []
        else luigi_plan fs (ExtractDatasetTask n default_download_dir default_extract_dir)
             @ [ProcessDatasetTask n ex pr])"
  by (simp add: luigi_plan_def)

lemma luigi_plan_trim:
  "luigi_plan fs (TrimDatasetColumnsTask n pr tr)
     = (if is_complete fs (TrimDatasetColumnsTask n pr tr) then []
        else luigi_plan fs (ProcessDatasetTask n default_extract_dir default_processed_dir)
             @ [TrimDatasetColumnsTask n pr tr])"
  by (simp add: luigi_plan_def)

lemma luigi_plan_cleanup:
  "luigi_plan fs (CleanupTask n dirs)
     = (if is_complete fs (CleanupTask n dirs) then []
        else luigi_plan fs (TrimDatasetColumnsTask n default_processed_dir default_trimmed_dir)
             @ [CleanupTask n dirs])"
  by (simp add: luigi_plan_def)

lemmas luigi_plan_simps =
  luigi_plan_download luigi_plan_extract luigi_plan_process luigi_plan_trim luigi_plan_cleanup

text \<open>
  The scheduled tasks are the end of the resolved order: the tasks after the last one
  that is complete, when all of them are incomplete.
\<close>

lemma luigi_plan_suffix:
  "luigi_plan fs target
     = rev (takeWhile (\<lambda>t. \<not> is_complete fs t) (rev (resolve target)))"
  by (cases target) (simp_all add: luigi_plan_simps resolve_simps)

lemma luigi_plan_distinct: "distinct (luigi_plan fs target)"
  unfolding luigi_plan_suffix
  using resolve_distinct [of target]
  by (metis distinct_rev distinct_takeWhile)

text \<open>
  Claim C7. Let the tasks before \<open>t\<close> in the order have run without failure, let \<open>t\<close>
  be due (its output is missing; for the scheduler of \<^verbatim>\<open>luigi.run()\<close>, it is scheduled
  and its dependencies are complete), and let its body fail with error \<open>e\<close> in state
  \<open>fs1\<close>. Then the run ends there: its report names \<open>t\<close> and \<open>e\<close>, and no other task;
  its events are those of the tasks before \<open>t\<close> followed by this one failure; \<open>t\<close> was
  executed once, last, and no task after it in the order was executed; and the state
  the run returns is \<open>fs1\<close>, the state in which the failed body ended, so the runner
  retries nothing and removes or changes nothing afterwards. This holds of the runner of
  section 4.5 on the resolved order and of the scheduler on its plan.
\<close>

theorem failure_aborts_run:
  "(\<forall>pre post fs1.
       resolve target = pre @ t # post
       \<and> failure (run_order env fs pre) = None
       \<and> \<not> is_complete (final (run_order env fs pre)) t
       \<and> run env t (final (run_order env fs pre)) = Inl (e, fs1)
     \<longrightarrow> run_pipeline env fs target
           = \<lparr>final = fs1, events = events (run_order env fs pre) @ [Failed t e],
              failure = Some (t, e)\<rparr>
         \<and> executed (events (run_pipeline env fs target))
             = executed (events (run_order env fs pre)) @ [t]
         \<and> t \<notin> set (executed (events (run_order env fs pre)))
         \<and> set (executed (events (run_pipeline env fs target))) \<inter> set post = {}
         \<and> (\<forall>u e'. Failed u e' \<in> set (events (run_pipeline env fs target))
               \<longrightarrow> u = t \<and> e' = e))
   \<and> (\<forall>pre post fs1.
       luigi_plan fs target = pre @ t # post
       \<and> failure (run_plan env fs pre) = None
       \<and> (\<forall>d\<in>set (requires t). is_complete (final (run_plan env fs pre)) d)
       \<and> run env t (final (run_plan env fs pre)) = Inl (e, fs1)
     \<longrightarrow> luigi_run env fs target
           = \<lparr>final = fs1, events = events (run_plan env fs pre) @ [Failed t e],
              failure = Some (t, e)\<rparr>
         \<and> executed (events (luigi_run env fs target))
             = executed (events (run_plan env fs pre)) @ [t]
         \<and> t \<notin> set (executed (events (run_plan env fs pre)))
         \<and> set (executed (events (luigi_run env fs target))) \<inter> set post = {}
         \<and> (\<forall>u e'. Failed u e' \<in> set (events (luigi_run env fs target))
               \<longrightarrow> u = t \<and> e' = e))"
proof (intro conjI allI impI)
  fix pre post fs1
  assume h: "resolve target = pre @ t # post
       \<and> failure (run_order env fs pre) = None
       \<and> \<not> is_complete (final (run_order env fs pre)) t
       \<and> run env t (final (run_order env fs pre)) = Inl (e, fs1)"
  then have sp: "resolve target = pre @ t # post"
    and f: "failure (run_order env fs pre) = None"
    and nc: "\<not> is_complete (final (run_order env fs pre)) t"
    and r: "run env t (final (run_order env fs pre)) = Inl (e, fs1)" by auto
  have rep: "run_pipeline env fs target
           = \<lparr>final = fs1, events = events (run_order env fs pre) @ [Failed t e],
              failure = Some (t, e)\<rparr>"
    unfolding run_pipeline_def sp run_order_append [OF f] using nc r by simp
  have dist: "distinct (pre @ t # post)" using sp resolve_distinct [of target] by simp
  have sub: "set (executed (events (run_order env fs pre))) \<subseteq> set pre"
    by (rule executed_subset)
  have x: "executed (events (run_pipeline env fs target))
             = executed (events (run_order env fs pre)) @ [t]"
    using rep by (simp add: executed_append)
  have tn: "t \<notin> set (executed (events (run_order env fs pre)))" using sub dist by auto
  have disj: "set (executed (events (run_pipeline env fs target))) \<inter> set post = {}"
    using x sub dist by auto
  have one: "\<forall>u e'. Failed u e' \<in> set (events (run_pipeline env fs target))
               \<longrightarrow> u = t \<and> e' = e"
    using rep no_failed_event [OF f] by auto
  show "run_pipeline env fs target
           = \<lparr>final = fs1, events = events (run_order env fs pre) @ [Failed t e],
              failure = Some (t, e)\<rparr>" by (rule rep)
  show "executed (events (run_pipeline env fs target))
             = executed (events (run_order env fs pre)) @ [t]" by (rule x)
  show "t \<notin> set (executed (events (run_order env fs pre)))" by (rule tn)
  show "set (executed (events (run_pipeline env fs target))) \<inter> set post = {}" by (rule disj)
  show "\<And>u e'. Failed u e' \<in> set (events (run_pipeline env fs target)) \<Longrightarrow> u = t"
    using one by blast
  show "\<And>u e'. Failed u e' \<in> set (events (run_pipeline env fs target)) \<Longrightarrow> e' = e"
    using one by blast
next
  fix pre post fs1
  assume h: "luigi_plan fs target = pre @ t # post
       \<and> failure (run_plan env fs pre) = None
       \<and> (\<forall>d\<in>set (requires t). is_complete (final (run_plan env fs pre)) d)
       \<and> run env t (final (run_plan env fs pre)) = Inl (e, fs1)"
  then have sp: "luigi_plan fs target = pre @ t # post"
    and f: "failure (run_plan env fs pre) = None"
    and dc: "\<forall>d\<in>set (requires t). is_complete (final (run_plan env fs pre)) d"
    and r: "run env t (final (run_plan env fs pre)) = Inl (e, fs1)" by auto
  have nl: "\<not> list_ex (\<lambda>d. \<not> is_complete (final (run_plan env fs pre)) d) (requires t)"
    using dc by (simp add: list_ex_iff)
  have rep: "luigi_run env fs target
           = \<lparr>final = fs1, events = events (run_plan env fs pre) @ [Failed t e],
              failure = Some (t, e)\<rparr>"
    unfolding luigi_run_def sp run_plan_append [OF f] using nl r by simp
  have dist: "distinct (pre @ t # post)" using sp luigi_plan_distinct [of fs target] by simp
  have sub: "set (executed (events (run_plan env fs pre))) \<subseteq> set pre"
    by (rule plan_executed_subset)
  have x: "executed (events (luigi_run env fs target))
             = executed (events (run_plan env fs pre)) @ [t]"
    using rep by (simp add: executed_append)
  have tn: "t \<notin> set (executed (events (run_plan env fs pre)))" using sub dist by auto
  have disj: "set (executed (events (luigi_run env fs target))) \<inter> set post = {}"
    using x sub dist by auto
  have one: "\<forall>u e'. Failed u e' \<in> set (events (luigi_run env fs target))
               \<longrightarrow> u = t \<and> e' = e"
    using rep plan_no_failed_event [OF f] by auto
  show "luigi_run env fs target
           = \<lparr>final = fs1, events = events (run_plan env fs pre) @ [Failed t e],
              failure = Some (t, e)\<rparr>" by (rule rep)
  show "executed (events (luigi_run env fs target))
             = executed (events (run_plan env fs pre)) @ [t]" by (rule x)
  show "t \<notin> set (executed (events (run_plan env fs pre)))" by (rule tn)
  show "set (executed (events (luigi_run env fs target))) \<inter> set post = {}" by (rule disj)
  show "\<And>u e'. Failed u e' \<in> set (events (luigi_run env fs target)) \<Longrightarrow> u = t"
    using one by blast
  show "\<And>u e'. Failed u e' \<in> set (events (luigi_run env fs target)) \<Longrightarrow> e' = e"
    using one by blast
qed

text \<open>
  Witness for C7: the archive cannot be read, so the unpack stage fails after the acquire
  stage has succeeded; both runners stop there.
\<close>

theorem failure_aborts_run_witness:
  "run_pipeline broken_archive_env [] default_target
     = \<lparr>final = [(''data_extracted'', Dir), (''data_downloads/GSE68849_RAW.tar'', File ''TAR''),
                 (''data_downloads'', Dir)],
        events = [Succeeded (DownloadDatasetTask ''GSE68849'' ''data_downloads''),
                  Failed (ExtractDatasetTask ''GSE68849'' ''data_downloads'' ''data_extracted'')
                    (CollaboratorError ''tarfile'')],
        failure = Some (ExtractDatasetTask ''GSE68849'' ''data_downloads'' ''data_extracted'',
                        CollaboratorError ''tarfile'')\<rparr>
   \<and> luigi_run broken_archive_env [] default_target
     = \<lparr>final = [(''data_extracted'', Dir), (''data_downloads/GSE68849_RAW.tar'', File ''TAR''),
                 (''data_downloads'', Dir)],
        events = [Succeeded (DownloadDatasetTask ''GSE68849'' ''data_downloads''),
                  Failed (ExtractDatasetTask ''GSE68849'' ''data_downloads'' ''data_extracted'')
                    (CollaboratorError ''tarfile'')],
        failure = Some (ExtractDatasetTask ''GSE68849'' ''data_downloads'' ''data_extracted'',
                        CollaboratorError ''tarfile'')\<rparr>
   \<and> set (executed (events (run_pipeline broken_archive_env [] default_target)))
       \<inter> set [ProcessDatasetTask ''GSE68849'' ''data_extracted'' ''data_processed'',
              TrimDatasetColumnsTask ''GSE68849'' ''data_processed'' ''data_trimmed'',
              CleanupTask ''GSE68849'' [''data_downloads'', ''data_extracted'']] = {}
   \<and> set (executed (events (luigi_run broken_archive_env [] default_target)))
       \<inter> set [ProcessDatasetTask ''GSE68849'' ''data_extracted'' ''data_processed'',
              TrimDatasetColumnsTask ''GSE68849'' ''data_processed'' ''data_trimmed'',
              CleanupTask ''GSE68849'' [''data_downloads'', ''data_extracted'']] = {}"
proof -
  let ?dl = "DownloadDatasetTask ''GSE68849'' ''data_downloads''"
  let ?ex = "ExtractDatasetTask ''GSE68849'' ''data_downloads'' ''data_extracted''"
  let ?post = "[ProcessDatasetTask ''GSE68849'' ''data_extracted'' ''data_processed'',
              TrimDatasetColumnsTask ''GSE68849'' ''data_processed'' ''data_trimmed'',
              CleanupTask ''GSE68849'' [''data_downloads'', ''data_extracted'']]"
  let ?mid = "[(''data_downloads/GSE68849_RAW.tar'', File ''TAR''), (''data_downloads'', Dir)]"
  let ?fin = "[(''data_extracted'', Dir), (''data_downloads/GSE68849_RAW.tar'', File ''TAR''),
                 (''data_downloads'', Dir)]"
  have ro: "run_order broken_archive_env [] [?dl]
      = \<lparr>final = ?mid, events = [Succeeded ?dl], failure = None\<rparr>" by code_simp
  have rp: "run_plan broken_archive_env [] [?dl]
      = \<lparr>final = ?mid, events = [Succeeded ?dl], failure = None\<rparr>" by code_simp
  have rs: "resolve default_target = [?dl] @ ?ex # ?post"
    by (simp add: resolve_simps default_target_def default_dataset_name_def
        default_download_dir_def default_extract_dir_def default_processed_dir_def
        default_trimmed_dir_def default_cleanup_dirs_def)
  have lp: "luigi_plan [] default_target = [?dl] @ ?ex # ?post"
    by (simp add: luigi_plan_simps is_complete_def path_exists_def default_target_def
        default_dataset_name_def default_download_dir_def default_extract_dir_def
        default_processed_dir_def default_trimmed_dir_def default_cleanup_dirs_def)
  have nc: "\<not> is_complete ?mid ?ex" by code_simp
  have dc: "\<forall>d\<in>set (requires ?ex). is_complete ?mid d"
    by (simp add: is_complete_def path_exists_def path_join_def startswith_def endswith_def)
  have r: "run broken_archive_env ?ex ?mid = Inl (CollaboratorError ''tarfile'', ?fin)"
    by code_simp
  have h1: "resolve default_target = [?dl] @ ?ex # ?post
       \<and> failure (run_order broken_archive_env [] [?dl]) = None
       \<and> \<not> is_complete (final (run_order broken_archive_env [] [?dl])) ?ex
       \<and> run broken_archive_env ?ex (final (run_order broken_archive_env [] [?dl]))
           = Inl (CollaboratorError ''tarfile'', ?fin)"
    using rs nc r by (simp only: ro report.simps simp_thms)
  have h2: "luigi_plan [] default_target = [?dl] @ ?ex # ?post
       \<and> failure (run_plan broken_archive_env [] [?dl]) = None
       \<and> (\<forall>d\<in>set (requires ?ex). is_complete (final (run_plan broken_archive_env [] [?dl])) d)
       \<and> run broken_archive_env ?ex (final (run_plan broken_archive_env [] [?dl]))
           = Inl (CollaboratorError ''tarfile'', ?fin)"
    using lp dc r by (simp only: rp report.simps simp_thms)
  note t = failure_aborts_run [of default_target ?ex broken_archive_env "[]"
      "CollaboratorError ''tarfile''"]
  have a: "run_pipeline broken_archive_env [] default_target
           = \<lparr>final = ?fin, events = [Succeeded ?dl, Failed ?ex (CollaboratorError ''tarfile'')],
              failure = Some (?ex, CollaboratorError ''tarfile'')\<rparr>"
    using t [THEN conjunct1, rule_format, OF h1, THEN conjunct1]
    by (simp only: ro report.simps append.simps)
  have a': "set (executed (events (run_pipeline broken_archive_env [] default_target)))
       \<inter> set ?post = {}"
    using t [THEN conjunct1, rule_format, OF h1, THEN conjunct2, THEN conjunct2, THEN conjunct2,
        THEN conjunct1] .
  have b: "luigi_run broken_archive_env [] default_target
           = \<lparr>final = ?fin, events = [Succeeded ?dl, Failed ?ex (CollaboratorError ''tarfile'')],
              failure = Some (?ex, CollaboratorError ''tarfile'')\<rparr>"
    using t [THEN conjunct2, rule_format, OF h2, THEN conjunct1]
    by (simp only: rp report.simps append.simps)
  have b': "set (executed (events (luigi_run broken_archive_env [] default_target)))
       \<inter> set ?post = {}"
    using t [THEN conjunct2, rule_format, OF h2, THEN conjunct2, THEN conjunct2, THEN conjunct2,
        THEN conjunct1] .
  show ?thesis using a a' b b' by (intro conjI)
qed

section \<open>What the stages keep and bring into existence\<close>






lemma and_then_Inr:
  "and_then r f = Inr fs2 \<Longrightarrow> \<exists>fs1. r = Inr fs1 \<and> f fs1 = Inr fs2"
  by (cases r) (auto simp: and_then_def)

lemma lift_error_Inr:
  "lift_error fs r f = Inr fs2 \<Longrightarrow> \<exists>x. r = Inr x \<and> f x = Inr fs2"
  by (cases r) (auto simp: lift_error_def)








section \<open>Properties of the project stage\<close>

lemma trim_columns_success:
  assumes "trim_columns env td cols fs x = Inr fs1"
  shows "\<exists>bytes df. read_file fs x = Inr bytes \<and> read_csv env bytes = Inr df
    \<and> write_file fs (trim_output_path td x) (to_csv env (drop_columns df cols)) = Inr fs1"
  using assms unfolding trim_columns_def
  by (auto dest!: lift_error_Inr)

lemma for_each_trim_other:
  "for_each (trim_columns env td cols) fs xs = Inr fs1 \<Longrightarrow>
   q \<notin> set (map (trim_output_path td) xs) \<Longrightarrow> map_of fs1 q = map_of fs q"
proof (induction xs arbitrary: fs)
  case Nil
  then show ?case by simp
next
  case (Cons x xs)
  from Cons.prems(1) obtain fs2 where b: "trim_columns env td cols fs x = Inr fs2"
    and r: "for_each (trim_columns env td cols) fs2 xs = Inr fs1"
    using and_then_Inr by fastforce
  from trim_columns_success [OF b] obtain c where
    w: "write_file fs (trim_output_path td x) c = Inr fs2" by blast
  have "map_of fs2 q = map_of fs q"
    using write_file_lookup [OF w, of q] Cons.prems(2) by auto
  moreover have "map_of fs1 q = map_of fs2 q"
    using Cons.IH [OF r] Cons.prems(2) by simp
  ultimately show ?case by simp
qed

lemma for_each_trim_outputs:
  "for_each (trim_columns env td cols) fs xs = Inr fs1 \<Longrightarrow>
   distinct (map (trim_output_path td) xs) \<Longrightarrow>
   \<forall>x\<in>set xs. trim_output_path td x \<notin> set xs \<Longrightarrow>
   \<forall>x\<in>set xs. \<exists>bytes df. read_file fs x = Inr bytes \<and> read_csv env bytes = Inr df
      \<and> map_of fs1 (trim_output_path td x) = Some (File (to_csv env (drop_columns df cols)))"
proof (induction xs arbitrary: fs)
  case Nil
  then show ?case by simp
next
  case (Cons x xs)
  from Cons.prems(1) obtain fs2 where b: "trim_columns env td cols fs x = Inr fs2"
    and r: "for_each (trim_columns env td cols) fs2 xs = Inr fs1"
    using and_then_Inr by fastforce
  from trim_columns_success [OF b] obtain bytes df where
    rd: "read_file fs x = Inr bytes" and p: "read_csv env bytes = Inr df" and
    w: "write_file fs (trim_output_path td x) (to_csv env (drop_columns df cols)) = Inr fs2"
    by blast
  have d: "distinct (map (trim_output_path td) xs)" using Cons.prems(2) by simp
  have nc: "\<forall>y\<in>set xs. trim_output_path td y \<notin> set xs" using Cons.prems(3) by simp
  have later: "\<forall>y\<in>set xs. \<exists>bytes df. read_file fs2 y = Inr bytes \<and> read_csv env bytes = Inr df
      \<and> map_of fs1 (trim_output_path td y) = Some (File (to_csv env (drop_columns df cols)))"
    using Cons.IH [OF r d nc] .
  have same: "\<forall>y\<in>set xs. read_file fs2 y = read_file fs y"
  proof
    fix y assume "y \<in> set xs"
    then have "y \<noteq> trim_output_path td x" using Cons.prems(3) by auto
    then have "map_of fs2 y = map_of fs y" using write_file_lookup [OF w, of y] by simp
    then show "read_file fs2 y = read_file fs y" by (simp add: read_file_def)
  qed
  have "trim_output_path td x \<notin> set (map (trim_output_path td) xs)"
    using Cons.prems(2) by simp
  from for_each_trim_other [OF r this]
  have "map_of fs1 (trim_output_path td x) = Some (File (to_csv env (drop_columns df cols)))"
    using write_file_lookup [OF w, of "trim_output_path td x"] by simp
  with rd p later same show ?case by auto
qed

lemma for_each_trim_written:
  "for_each (trim_columns env td cols) fs xs = Inr fs1 \<Longrightarrow>
   \<forall>x\<in>set xs. \<exists>bytes df. read_csv env bytes = Inr df
      \<and> map_of fs1 (trim_output_path td x) = Some (File (to_csv env (drop_columns df cols)))"
proof (induction xs arbitrary: fs)
  case Nil
  then show ?case by simp
next
  case (Cons x xs)
  from Cons.prems obtain fs2 where b: "trim_columns env td cols fs x = Inr fs2"
    and r: "for_each (trim_columns env td cols) fs2 xs = Inr fs1"
    using and_then_Inr by fastforce
  have later: "\<forall>y\<in>set xs. \<exists>bytes df. read_csv env bytes = Inr df
      \<and> map_of fs1 (trim_output_path td y) = Some (File (to_csv env (drop_columns df cols)))"
    using Cons.IH [OF r] .
  have first: "\<exists>bytes df. read_csv env bytes = Inr df
      \<and> map_of fs1 (trim_output_path td x) = Some (File (to_csv env (drop_columns df cols)))"
  proof (cases "trim_output_path td x \<in> set (map (trim_output_path td) xs)")
    case True
    then obtain y where "y \<in> set xs" "trim_output_path td y = trim_output_path td x" by auto
    with later show ?thesis by metis
  next
    case False
    from trim_columns_success [OF b] obtain bytes df where
      p: "read_csv env bytes = Inr df" and
      w: "write_file fs (trim_output_path td x) (to_csv env (drop_columns df cols)) = Inr fs2"
      by blast
    have "map_of fs2 (trim_output_path td x) = Some (File (to_csv env (drop_columns df cols)))"
      using write_file_lookup [OF w] by simp
    moreover have "map_of fs1 (trim_output_path td x) = map_of fs2 (trim_output_path td x)"
      using for_each_trim_other [OF r False] .
    ultimately show ?thesis using p by auto
  qed
  show ?case using first later by simp
qed

text \<open>
  Claim C5. In a normal state, with normal-form locations: when
  \<^verbatim>\<open>_trim_columns\<close> succeeds on a file, the file was read, \<^verbatim>\<open>read_csv\<close> returned a table
  for its content, the output path holds what \<^verbatim>\<open>to_csv\<close> writes for that table without
  the four designated columns, and no other path has changed. When the trim stage
  succeeds, its output directory was created, every file that the loop selected has its
  output holding the projection of a table that was read; when the outputs of the
  selected files are distinct and none of them is itself a selected file, the output of
  each selected file holds the projection of the table of that very file; and no path
  other than these outputs has changed. The projection of a rectangular table keeps
  exactly the columns that are not among the four, in their order, keeps the number of
  rows and, row by row, the cells under the labels kept, and returns the table unchanged
  when none of the four columns is present.
\<close>

theorem column_projection:
  assumes "normal_state fs" and "normal_form processed_dir" and "normal_form trimmed_dir"
  shows
   "(\<forall>file_path fs1. trim_columns env trimmed_dir columns_to_remove fs file_path = Inr fs1 \<longrightarrow>
      (\<exists>bytes df. read_file fs file_path = Inr bytes \<and> read_csv env bytes = Inr df
         \<and> map_of fs1 (trim_output_path trimmed_dir file_path)
             = Some (File (to_csv env (drop_columns df columns_to_remove)))
         \<and> (\<forall>q. q \<noteq> trim_output_path trimmed_dir file_path \<longrightarrow> map_of fs1 q = map_of fs q)))
   \<and> (\<forall>fs1. run env (TrimDatasetColumnsTask name processed_dir trimmed_dir) fs = Inr fs1 \<longrightarrow>
        (\<exists>fs0. makedirs fs trimmed_dir = Inr fs0
          \<and> (\<forall>x\<in>set (trim_inputs fs0 processed_dir).
                \<exists>bytes df. read_csv env bytes = Inr df
                  \<and> map_of fs1 (trim_output_path trimmed_dir x)
                      = Some (File (to_csv env (drop_columns df columns_to_remove))))
          \<and> (distinct (map (trim_output_path trimmed_dir) (trim_inputs fs0 processed_dir))
               \<and> (\<forall>x\<in>set (trim_inputs fs0 processed_dir).
                     trim_output_path trimmed_dir x \<notin> set (trim_inputs fs0 processed_dir))
               \<longrightarrow> (\<forall>x\<in>set (trim_inputs fs0 processed_dir).
                     \<exists>bytes df. read_file fs0 x = Inr bytes \<and> read_csv env bytes = Inr df
                       \<and> map_of fs1 (trim_output_path trimmed_dir x)
                           = Some (File (to_csv env (drop_columns df columns_to_remove)))))
          \<and> (\<forall>q. q \<notin> set (map (trim_output_path trimmed_dir) (trim_inputs fs0 processed_dir))
                 \<longrightarrow> map_of fs1 q = map_of fs0 q)))
   \<and> (\<forall>df. well_formed df \<longrightarrow>
        columns (drop_columns df columns_to_remove)
           = filter (\<lambda>c. c \<notin> set columns_to_remove) (columns df)
      \<and> length (rows (drop_columns df columns_to_remove)) = length (rows df)
      \<and> (\<forall>i<length (rows df).
          zip (columns (drop_columns df columns_to_remove))
              (rows (drop_columns df columns_to_remove) ! i)
            = filter (\<lambda>cv. fst cv \<notin> set columns_to_remove) (zip (columns df) (rows df ! i)))
      \<and> well_formed (drop_columns df columns_to_remove)
      \<and> (set (columns df) \<inter> set columns_to_remove = {}
          \<longrightarrow> drop_columns df columns_to_remove = df))"
proof -
  let ?out = "trim_output_path trimmed_dir"
  let ?cols = columns_to_remove
  have a: "\<forall>file_path fs1. trim_columns env trimmed_dir ?cols fs file_path = Inr fs1 \<longrightarrow>
      (\<exists>bytes df. read_file fs file_path = Inr bytes \<and> read_csv env bytes = Inr df
         \<and> map_of fs1 (?out file_path) = Some (File (to_csv env (drop_columns df ?cols)))
         \<and> (\<forall>q. q \<noteq> ?out file_path \<longrightarrow> map_of fs1 q = map_of fs q))"
  proof (intro allI impI)
    fix file_path fs1
    assume "trim_columns env trimmed_dir ?cols fs file_path = Inr fs1"
    from trim_columns_success [OF this] obtain bytes df where
      rd: "read_file fs file_path = Inr bytes" and p: "read_csv env bytes = Inr df"
      and w: "write_file fs (?out file_path) (to_csv env (drop_columns df ?cols)) = Inr fs1"
      by blast
    have "map_of fs1 (?out file_path) = Some (File (to_csv env (drop_columns df ?cols)))"
      using write_file_lookup [OF w, of "?out file_path"] by simp
    moreover have "\<forall>q. q \<noteq> ?out file_path \<longrightarrow> map_of fs1 q = map_of fs q"
      using write_file_lookup [OF w] by simp
    ultimately show "\<exists>bytes df. read_file fs file_path = Inr bytes \<and> read_csv env bytes = Inr df
         \<and> map_of fs1 (?out file_path) = Some (File (to_csv env (drop_columns df ?cols)))
         \<and> (\<forall>q. q \<noteq> ?out file_path \<longrightarrow> map_of fs1 q = map_of fs q)"
      using rd p by blast
  qed
  have b: "\<forall>fs1. run env (TrimDatasetColumnsTask name processed_dir trimmed_dir) fs = Inr fs1 \<longrightarrow>
        (\<exists>fs0. makedirs fs trimmed_dir = Inr fs0
          \<and> (\<forall>x\<in>set (trim_inputs fs0 processed_dir).
                \<exists>bytes df. read_csv env bytes = Inr df
                  \<and> map_of fs1 (?out x) = Some (File (to_csv env (drop_columns df ?cols))))
          \<and> (distinct (map ?out (trim_inputs fs0 processed_dir))
               \<and> (\<forall>x\<in>set (trim_inputs fs0 processed_dir).
                     ?out x \<notin> set (trim_inputs fs0 processed_dir))
               \<longrightarrow> (\<forall>x\<in>set (trim_inputs fs0 processed_dir).
                     \<exists>bytes df. read_file fs0 x = Inr bytes \<and> read_csv env bytes = Inr df
                       \<and> map_of fs1 (?out x) = Some (File (to_csv env (drop_columns df ?cols)))))
          \<and> (\<forall>q. q \<notin> set (map ?out (trim_inputs fs0 processed_dir))
                 \<longrightarrow> map_of fs1 q = map_of fs0 q))"
  proof (intro allI impI)
    fix fs1
    assume "run env (TrimDatasetColumnsTask name processed_dir trimmed_dir) fs = Inr fs1"
    then obtain fs0 where mk: "makedirs fs trimmed_dir = Inr fs0"
      and fe: "for_each (trim_columns env trimmed_dir ?cols) fs0
                 (trim_inputs fs0 processed_dir) = Inr fs1"
      by (auto simp: trim_run_def trim_inputs_def dest!: and_then_Inr)
    show "\<exists>fs0. makedirs fs trimmed_dir = Inr fs0
          \<and> (\<forall>x\<in>set (trim_inputs fs0 processed_dir).
                \<exists>bytes df. read_csv env bytes = Inr df
                  \<and> map_of fs1 (?out x) = Some (File (to_csv env (drop_columns df ?cols))))
          \<and> (distinct (map ?out (trim_inputs fs0 processed_dir))
               \<and> (\<forall>x\<in>set (trim_inputs fs0 processed_dir).
                     ?out x \<notin> set (trim_inputs fs0 processed_dir))
               \<longrightarrow> (\<forall>x\<in>set (trim_inputs fs0 processed_dir).
                     \<exists>bytes df. read_file fs0 x = Inr bytes \<and> read_csv env bytes = Inr df
                       \<and> map_of fs1 (?out x) = Some (File (to_csv env (drop_columns df ?cols)))))
          \<and> (\<forall>q. q \<notin> set (map ?out (trim_inputs fs0 processed_dir))
                 \<longrightarrow> map_of fs1 q = map_of fs0 q)"
      using mk for_each_trim_written [OF fe] for_each_trim_outputs [OF fe]
        for_each_trim_other [OF fe]
      by (intro exI [of _ fs0] conjI impI allI) blast+
  qed
  show ?thesis using a b drop_columns_projection by blast
qed

text \<open>
  Witness for C5: the trim stage on the one normalized table of the sample world, which
  has two of the four columns.
\<close>

theorem column_projection_witness:
  "run sample_env trim_target
       [(''data_processed/foo.txt_processed.txt'', File ''TSV''), (''data_processed'', Dir)]
     = Inr [(''data_trimmed/foo.txt_trimmed.txt'', File ''IDSymbol1s12s2''),
            (''data_trimmed'', Dir),
            (''data_processed/foo.txt_processed.txt'', File ''TSV''),
            (''data_processed'', Dir)]
   \<and> read_csv sample_env ''TSV'' = Inr sample_frame
   \<and> to_csv sample_env (drop_columns sample_frame columns_to_remove) = ''IDSymbol1s12s2''
   \<and> well_formed sample_frame
   \<and> columns (drop_columns sample_frame columns_to_remove) = [''ID'', ''Symbol'']
   \<and> rows (drop_columns sample_frame columns_to_remove) = [[''1'', ''s1''], [''2'', ''s2'']]
   \<and> well_formed (drop_columns sample_frame columns_to_remove)
   \<and> (\<exists>bytes df. read_file [(''data_trimmed'', Dir),
            (''data_processed/foo.txt_processed.txt'', File ''TSV''),
            (''data_processed'', Dir)] ''data_processed/foo.txt_processed.txt'' = Inr bytes
         \<and> read_csv sample_env bytes = Inr df
         \<and> map_of [(''data_trimmed/foo.txt_trimmed.txt'', File ''IDSymbol1s12s2''),
            (''data_trimmed'', Dir),
            (''data_processed/foo.txt_processed.txt'', File ''TSV''),
            (''data_processed'', Dir)] ''data_trimmed/foo.txt_trimmed.txt''
             = Some (File (to_csv sample_env (drop_columns df columns_to_remove))))"
proof -
  let ?ini = "[(''data_processed/foo.txt_processed.txt'', File ''TSV''), (''data_processed'', Dir)]"
  let ?mid = "[(''data_trimmed'', Dir),
            (''data_processed/foo.txt_processed.txt'', File ''TSV''),
            (''data_processed'', Dir)]"
  let ?fin = "[(''data_trimmed/foo.txt_trimmed.txt'', File ''IDSymbol1s12s2''),
            (''data_trimmed'', Dir),
            (''data_processed/foo.txt_processed.txt'', File ''TSV''),
            (''data_processed'', Dir)]"
  have h1: "normal_state ?ini" by (simp add: normal_state_def normal_form_def)
  have h2: "normal_form ''data_processed''" by (simp add: normal_form_def)
  have h3: "normal_form ''data_trimmed''" by (simp add: normal_form_def)
  have r: "run sample_env (TrimDatasetColumnsTask ''GSE68849'' ''data_processed'' ''data_trimmed'') ?ini
      = Inr ?fin" by code_simp
  have r': "run sample_env trim_target ?ini = Inr ?fin" by code_simp
  have mk: "makedirs ?ini ''data_trimmed'' = Inr ?mid" by code_simp
  have ins: "trim_inputs ?mid ''data_processed'' = [''data_processed/foo.txt_processed.txt'']"
    by code_simp
  have out: "trim_output_path ''data_trimmed'' ''data_processed/foo.txt_processed.txt''
      = ''data_trimmed/foo.txt_trimmed.txt''" by code_simp
  have wf: "well_formed sample_frame" by (simp add: well_formed_def sample_frame_def)
  note t = column_projection [OF h1 h2 h3, of sample_env "''GSE68849''"]
  from t have "\<exists>fs0. makedirs ?ini ''data_trimmed'' = Inr fs0
          \<and> (distinct (map (trim_output_path ''data_trimmed'') (trim_inputs fs0 ''data_processed''))
               \<and> (\<forall>x\<in>set (trim_inputs fs0 ''data_processed'').
                     trim_output_path ''data_trimmed'' x \<notin> set (trim_inputs fs0 ''data_processed''))
               \<longrightarrow> (\<forall>x\<in>set (trim_inputs fs0 ''data_processed'').
                     \<exists>bytes df. read_file fs0 x = Inr bytes \<and> read_csv sample_env bytes = Inr df
                       \<and> map_of ?fin (trim_output_path ''data_trimmed'' x)
                           = Some (File (to_csv sample_env (drop_columns df columns_to_remove)))))"
    using r by blast
  then have e: "\<exists>bytes df. read_file ?mid ''data_processed/foo.txt_processed.txt'' = Inr bytes
         \<and> read_csv sample_env bytes = Inr df
         \<and> map_of ?fin ''data_trimmed/foo.txt_trimmed.txt''
             = Some (File (to_csv sample_env (drop_columns df columns_to_remove)))"
    unfolding mk using ins out by simp
  from t wf have w2: "well_formed (drop_columns sample_frame columns_to_remove)" by blast
  have c: "columns (drop_columns sample_frame columns_to_remove) = [''ID'', ''Symbol'']"
    by (simp add: drop_columns_def sample_frame_def columns_to_remove_def)
  have rw: "rows (drop_columns sample_frame columns_to_remove)
      = [[''1'', ''s1''], [''2'', ''s2'']]"
    by (simp add: drop_columns_def keep_cells_def sample_frame_def columns_to_remove_def)
  have rc: "read_csv sample_env ''TSV'' = Inr sample_frame" by (simp add: sample_env_def)
  have tc: "to_csv sample_env (drop_columns sample_frame columns_to_remove) = ''IDSymbol1s12s2''"
    by code_simp
  show ?thesis using r' rc tc wf c rw w2 e by blast
qed

section \<open>Second runs\<close>








lemma broken_first_run:
  "run_pipeline broken_archive_env [] default_target
     = \<lparr>final = [(''data_extracted'', Dir), (''data_downloads/GSE68849_RAW.tar'', File ''TAR''),
                 (''data_downloads'', Dir)],
        events = [Succeeded (DownloadDatasetTask ''GSE68849'' ''data_downloads''),
                  Failed (ExtractDatasetTask ''GSE68849'' ''data_downloads'' ''data_extracted'')
                    (CollaboratorError ''tarfile'')],
        failure = Some (ExtractDatasetTask ''GSE68849'' ''data_downloads'' ''data_extracted'',
                        CollaboratorError ''tarfile'')\<rparr>"
  by code_simp



end
